theory Spec2Isabelle
  imports Complex_Main
begin

unbundle bit_operations_syntax

section \<open>Constants of \<^verbatim>\<open>cgir/infrared.py\<close>\<close>

text \<open>
  The infrared formats are the string constants \<^verbatim>\<open>FORMAT_UNKNOWN\<close>, \<^verbatim>\<open>FORMAT_AEHA\<close>,
  \<^verbatim>\<open>FORMAT_NEC\<close> and \<^verbatim>\<open>FORMAT_SONY\<close>; the results of a capture are the integer
  constants \<^verbatim>\<open>REC_SUCCESS\<close> ... \<^verbatim>\<open>REC_ERR_PIGPIO\<close>. Durations are Python integers,
  in microseconds.
\<close>

datatype ir_format = Unknown | AEHA | NEC | SONY

datatype rec_result = REC_SUCCESS | REC_NO_DATA | REC_SHORT | REC_ERR_PIGPIO

datatype py_error = IndexError | ValueError

definition T_MAX_GAP :: int where "T_MAX_GAP = 60000"
definition T_AEHA :: int where "T_AEHA = 425"
definition T_NEC :: int where "T_NEC = 560"
definition T_SONY :: int where "T_SONY = 600"
definition T_WAIT :: int where "T_WAIT = 10000"

section \<open>Timing utilities\<close>

text \<open>
  \<^verbatim>\<open>Infrared._round(n, m)\<close> is \<^verbatim>\<open>(n + m // 2) // m * m\<close>. Python's \<^verbatim>\<open>//\<close> on integers is
  floor division, and so is \<open>div\<close> on \<open>int\<close>.
\<close>

definition round_m :: "int \<Rightarrow> int \<Rightarrow> int" where
  "round_m n m = (n + m div 2) div m * m"

text \<open>
  \<^verbatim>\<open>Infrared._cl(length, target, tol)\<close> compares a measured duration with a target under
  a relative tolerance. The bounds \<^verbatim>\<open>target * (1 - tol)\<close> and \<^verbatim>\<open>target * (1 + tol)\<close> are
  computed here in exact rational arithmetic; Python computes them in binary64. For the
  default tolerance and each target that \<^verbatim>\<open>decode\<close> passes (425, 560, 600 and their
  multiples by 2, 3, 4, 8 and 16) the binary64 product is the exact value, and Python
  compares an integer with a float exactly, so both agree on every integer duration.
\<close>

definition cl :: "rat \<Rightarrow> rat \<Rightarrow> rat \<Rightarrow> bool" where
  "cl len target tol =
     (if len > target * (1 - tol) \<and> len < target * (1 + tol) then True else False)"

text \<open>The call \<^verbatim>\<open>self._cl(length, target)\<close> with the default \<^verbatim>\<open>tol=0.35\<close>, on integers.\<close>

definition cl_default :: "int \<Rightarrow> int \<Rightarrow> bool" where
  "cl_default len target = cl (of_int len) (of_int target) 0.35"

section \<open>Encoding frames as a timing code\<close>

text \<open>
  \<^verbatim>\<open>Infrared.encode\<close> appends to the list \<^verbatim>\<open>code\<close> and counts base periods in
  \<^verbatim>\<open>t_count\<close>; the model passes both on as a pair. \<open>byte_bits\<close> is the loop
  \<^verbatim>\<open>for i in range(8)\<close> over the bits of one byte of an AEHA or NEC frame, with the number
  of iterations left as its second argument; \<open>frame_bytes\<close> is \<^verbatim>\<open>for byte in frame\<close>.
  On Python integers \<^verbatim>\<open>d & 1\<close> is \<open>d AND 1\<close> and \<^verbatim>\<open>d >> 1\<close> is \<open>drop_bit 1 d\<close>.
\<close>

fun byte_bits :: "int \<Rightarrow> nat \<Rightarrow> int \<Rightarrow> int list \<times> int \<Rightarrow> int list \<times> int" where
  "byte_bits t 0 d (code, t_count) = (code, t_count)"
| "byte_bits t (Suc n) d (code, t_count) =
     (if d AND 1 = 0 then byte_bits t n (drop_bit 1 d) (code @ [t, t], t_count + 2)
      else byte_bits t n (drop_bit 1 d) (code @ [t, t * 3], t_count + 4))"

fun frame_bytes :: "int \<Rightarrow> int list \<Rightarrow> int list \<times> int \<Rightarrow> int list \<times> int" where
  "frame_bytes t [] s = s"
| "frame_bytes t (b # frame) s = frame_bytes t frame (byte_bits t 8 b s)"

text \<open>The loop \<^verbatim>\<open>for i in range(bits)\<close> of a SONY frame.\<close>

fun sony_bits :: "int \<Rightarrow> nat \<Rightarrow> int \<Rightarrow> int list \<times> int \<Rightarrow> int list \<times> int" where
  "sony_bits t 0 d (code, t_count) = (code, t_count)"
| "sony_bits t (Suc n) d (code, t_count) =
     (if d AND 1 = 0 then sony_bits t n (drop_bit 1 d) (code @ [t, t], t_count + 2)
      else sony_bits t n (drop_bit 1 d) (code @ [t, t * 2], t_count + 3))"

text \<open>
  The data part of a SONY frame reads \<^verbatim>\<open>frame[0]\<close> and \<^verbatim>\<open>frame[1]\<close>: a frame with
  fewer than two elements raises \<^verbatim>\<open>IndexError\<close>.
\<close>

fun sony_data :: "int \<Rightarrow> int list \<Rightarrow> int list \<times> int \<Rightarrow> py_error + int list \<times> int" where
  "sony_data t (f0 # f1 # frame) s =
     (let d = f0 + push_bit 7 f1;
          bits = (if f1 \<ge> 0x100 then 20 else if f1 \<ge> 0x20 then 15 else 12)
      in Inr (sony_bits t bits d s))"
| "sony_data t frame s = Inl IndexError"

text \<open>
  The loop \<^verbatim>\<open>for frame in frames\<close>. \<^verbatim>\<open>t_count\<close> is unbound before the first frame and
  read only when \<^verbatim>\<open>first_frame\<close> is false. The branch \<^verbatim>\<open>else: return code\<close> of the
  leader part is kept, though \<^verbatim>\<open>encode\<close> has raised \<^verbatim>\<open>ValueError\<close> before the loop for
  every format that would reach it.
\<close>

fun encode_loop ::
  "ir_format \<Rightarrow> int \<Rightarrow> int list list \<Rightarrow> bool \<Rightarrow> int list \<times> int \<Rightarrow> py_error + int list" where
  "encode_loop ir_format t [] first_frame (code, t_count) = Inr code"
| "encode_loop ir_format t (frame # frames) first_frame (code, t_count) =
     (let code1 =
            (if \<not> first_frame then
               (if ir_format = AEHA then code @ [T_WAIT]
                else if ir_format = NEC then code @ [round_m (108000 - t * t_count) 100]
                else if ir_format = SONY then code @ [round_m (45000 - t * t_count) 100]
                else code)
             else code)
      in if ir_format = AEHA then
           encode_loop ir_format t frames False
             (case frame_bytes t frame (code1 @ [t * 8, t * 4], 12) of
                (c, tc) \<Rightarrow> (c @ [t], tc))
         else if ir_format = NEC then
           encode_loop ir_format t frames False
             (case frame_bytes t frame (code1 @ [t * 16, t * 8], 24) of
                (c, tc) \<Rightarrow> (c @ [t], tc))
         else if ir_format = SONY then
           (case sony_data t frame (code1 @ [t * 4], 4) of
              Inl e \<Rightarrow> Inl e
            | Inr s \<Rightarrow> encode_loop ir_format t frames False s)
         else Inr code1)"

definition encode :: "ir_format \<Rightarrow> int list list \<Rightarrow> py_error + int list" where
  "encode ir_format frames =
     (if ir_format = AEHA then encode_loop ir_format T_AEHA frames True ([], 0)
      else if ir_format = NEC then encode_loop ir_format T_NEC frames True ([], 0)
      else if ir_format = SONY then encode_loop ir_format T_SONY frames True ([], 0)
      else Inl ValueError)"

text \<open>
  The older single-file module \<^verbatim>\<open>cgir.py\<close> has the same \<^verbatim>\<open>encode\<close> with two
  differences: an unknown format returns \<^verbatim>\<open>[]\<close> instead of raising, and the loop starts
  with \<^verbatim>\<open>if len(frame) == 0: return []\<close>.
\<close>

fun encode_loop_v1 ::
  "ir_format \<Rightarrow> int \<Rightarrow> int list list \<Rightarrow> bool \<Rightarrow> int list \<times> int \<Rightarrow> py_error + int list" where
  "encode_loop_v1 ir_format t [] first_frame (code, t_count) = Inr code"
| "encode_loop_v1 ir_format t (frame # frames) first_frame (code, t_count) =
     (if length frame = 0 then Inr []
      else
     (let code1 =
            (if \<not> first_frame then
               (if ir_format = AEHA then code @ [T_WAIT]
                else if ir_format = NEC then code @ [round_m (108000 - t * t_count) 100]
                else if ir_format = SONY then code @ [round_m (45000 - t * t_count) 100]
                else code)
             else code)
      in if ir_format = AEHA then
           encode_loop_v1 ir_format t frames False
             (case frame_bytes t frame (code1 @ [t * 8, t * 4], 12) of
                (c, tc) \<Rightarrow> (c @ [t], tc))
         else if ir_format = NEC then
           encode_loop_v1 ir_format t frames False
             (case frame_bytes t frame (code1 @ [t * 16, t * 8], 24) of
                (c, tc) \<Rightarrow> (c @ [t], tc))
         else if ir_format = SONY then
           (case sony_data t frame (code1 @ [t * 4], 4) of
              Inl e \<Rightarrow> Inl e
            | Inr s \<Rightarrow> encode_loop_v1 ir_format t frames False s)
         else Inr code1))"

definition encode_v1 :: "ir_format \<Rightarrow> int list list \<Rightarrow> py_error + int list" where
  "encode_v1 ir_format frames =
     (if ir_format = AEHA then encode_loop_v1 ir_format T_AEHA frames True ([], 0)
      else if ir_format = NEC then encode_loop_v1 ir_format T_NEC frames True ([], 0)
      else if ir_format = SONY then encode_loop_v1 ir_format T_SONY frames True ([], 0)
      else Inr [])"

section \<open>Decoding a timing code\<close>

text \<open>
  The local variables of \<^verbatim>\<open>Infrared.decode\<close> that its loops update. \<^verbatim>\<open>frames.append\<close>
  is followed by binding \<^verbatim>\<open>byte_list\<close> to a new list, so no list is shared.
\<close>

record dstate =
  frames :: "int list list"
  byte_list :: "int list"
  byte :: int
  bit_counter :: nat
  end_of_frame :: bool

text \<open>
  What one iteration of a loop does: go on with the next index (\<^verbatim>\<open>continue\<close> or the end
  of the body), return from \<^verbatim>\<open>decode\<close>, or raise.
\<close>

datatype outcome = Continue dstate | Return "ir_format \<times> int list list" | Raise py_error

text \<open>The end of the two data branches of the AEHA and NEC loop.\<close>

definition next_bit :: "dstate \<Rightarrow> dstate" where
  "next_bit st =
     (let st1 = st\<lparr>bit_counter := (bit_counter st + 1) mod 8\<rparr>
      in if bit_counter st1 = 0
         then st1\<lparr>byte_list := byte_list st1 @ [byte st1], byte := 0\<rparr>
         else st1)"

text \<open>
  The body of \<^verbatim>\<open>for i in range(2, len(code), 2)\<close>. \<^verbatim>\<open>code[i + 1]\<close> is read only after
  \<^verbatim>\<open>i == len(code) - 1\<close> has been excluded, so no read is out of range.
  \<^verbatim>\<open>_T_WAIT * 0.5\<close> is the float 5000.0.
\<close>

definition an_body :: "ir_format \<Rightarrow> int \<Rightarrow> int list \<Rightarrow> nat \<Rightarrow> dstate \<Rightarrow> outcome" where
  "an_body ir_format t code i st =
     (if end_of_frame st then
        (if int i = int (length code) - 1 then Return (Unknown, [])
         else if ir_format = AEHA then
           (if cl_default (code ! i) (T_AEHA * 8) \<and> cl_default (code ! (i + 1)) (T_AEHA * 4)
            then Continue (st\<lparr>end_of_frame := False\<rparr>)
            else if cl_default (code ! i) (T_AEHA * 8) \<and> cl_default (code ! (i + 1)) (T_AEHA * 8)
            then Continue (st\<lparr>end_of_frame := False\<rparr>)
            else Return (Unknown, []))
         else if ir_format = NEC then
           (if cl_default (code ! i) (T_NEC * 16) \<and> cl_default (code ! (i + 1)) (T_NEC * 8)
            then Continue (st\<lparr>end_of_frame := False\<rparr>)
            else if cl_default (code ! i) (T_NEC * 16) \<and> cl_default (code ! (i + 1)) (T_NEC * 4)
            then Continue (st\<lparr>end_of_frame := False\<rparr>)
            else Return (Unknown, []))
         else Continue st)
      else
        (if int i = int (length code) - 1 then
           (if cl_default (code ! i) t \<and> bit_counter st = 0
            then Return (ir_format, frames st @ [byte_list st])
            else Return (Unknown, []))
         else if cl_default (code ! i) t \<and> rat_of_int (code ! (i + 1)) > rat_of_int T_WAIT * 0.5
         then Continue (st\<lparr>frames := frames st @ [byte_list st], byte_list := [], byte := 0,
                            end_of_frame := True\<rparr>)
         else if cl_default (code ! i) t \<and> cl_default (code ! (i + 1)) t
         then Continue (next_bit st)
         else if cl_default (code ! i) t \<and> cl_default (code ! (i + 1)) (t * 3)
         then Continue (next_bit (st\<lparr>byte := byte st + push_bit (bit_counter st) 1\<rparr>))
         else Return (Unknown, [])))"

text \<open>
  The loop itself. When the range is exhausted without a \<^verbatim>\<open>return\<close>, \<^verbatim>\<open>decode\<close> ends
  without a return statement, so Python returns \<^verbatim>\<open>None\<close>: that is \<open>Inr None\<close>.
\<close>

function an_loop ::
  "ir_format \<Rightarrow> int \<Rightarrow> int list \<Rightarrow> nat \<Rightarrow> dstate
     \<Rightarrow> py_error + (ir_format \<times> int list list) option" where
  "an_loop ir_format t code i st =
     (if i < length code then
        (case an_body ir_format t code i st of
           Continue st' \<Rightarrow> an_loop ir_format t code (i + 2) st'
         | Return r \<Rightarrow> Inr (Some r)
         | Raise e \<Rightarrow> Inl e)
      else Inr None)"
  by pat_completeness auto
termination
  by (relation "measure (\<lambda>(ir_format, t, code, i, st). length code - i)") auto

text \<open>
  The body of \<^verbatim>\<open>for i in range(1, len(code), 2)\<close> of the SONY branch. \<^verbatim>\<open>and\<close> evaluates
  its right operand only when the left one holds, so \<^verbatim>\<open>code[i + 1]\<close> is read, and raises
  \<^verbatim>\<open>IndexError\<close> at the last index, exactly when \<^verbatim>\<open>code[i] > _T_WAIT * 0.5\<close> or
  \<^verbatim>\<open>self._cl(code[i], t)\<close> holds. \<open>sony_last\<close> is the final \<^verbatim>\<open>if i == len(code) - 2\<close>.
\<close>

definition sony_flush :: "dstate \<Rightarrow> int list list" where
  "sony_flush st = frames st @ [byte_list st @ [byte st AND 0x7F] @ [drop_bit 7 (byte st)]]"

definition sony_last :: "ir_format \<Rightarrow> int list \<Rightarrow> nat \<Rightarrow> dstate \<Rightarrow> outcome" where
  "sony_last ir_format code i st =
     (if int i = int (length code) - 2 then
        (if bit_counter st = 12 \<or> bit_counter st = 15 \<or> bit_counter st = 20
         then Return (ir_format, sony_flush st)
         else Return (Unknown, []))
      else Continue st)"

definition sony_body :: "ir_format \<Rightarrow> int \<Rightarrow> int list \<Rightarrow> nat \<Rightarrow> dstate \<Rightarrow> outcome" where
  "sony_body ir_format t code i st =
     (if rat_of_int (code ! i) > rat_of_int T_WAIT * 0.5 \<and> \<not> i + 1 < length code
      then Raise IndexError
      else if rat_of_int (code ! i) > rat_of_int T_WAIT * 0.5 \<and> cl_default (code ! (i + 1)) (t * 4)
              \<and> int i \<le> int (length code) - 3
      then Continue (st\<lparr>frames := sony_flush st, byte_list := [], byte := 0, bit_counter := 0\<rparr>)
      else if cl_default (code ! i) t \<and> \<not> i + 1 < length code
      then Raise IndexError
      else if cl_default (code ! i) t \<and> cl_default (code ! (i + 1)) t
      then sony_last ir_format code i (st\<lparr>bit_counter := bit_counter st + 1\<rparr>)
      else if cl_default (code ! i) t \<and> cl_default (code ! (i + 1)) (t * 2)
      then sony_last ir_format code i
             (st\<lparr>byte := byte st + push_bit (bit_counter st) 1, bit_counter := bit_counter st + 1\<rparr>)
      else Return (Unknown, []))"

function sony_loop ::
  "ir_format \<Rightarrow> int \<Rightarrow> int list \<Rightarrow> nat \<Rightarrow> dstate
     \<Rightarrow> py_error + (ir_format \<times> int list list) option" where
  "sony_loop ir_format t code i st =
     (if i < length code then
        (case sony_body ir_format t code i st of
           Continue st' \<Rightarrow> sony_loop ir_format t code (i + 2) st'
         | Return r \<Rightarrow> Inr (Some r)
         | Raise e \<Rightarrow> Inl e)
      else Inr None)"
  by pat_completeness auto
termination
  by (relation "measure (\<lambda>(ir_format, t, code, i, st). length code - i)") auto

definition init_dstate :: dstate where
  "init_dstate = \<lparr>frames = [], byte_list = [], byte = 0, bit_counter = 0, end_of_frame = False\<rparr>"

text \<open>
  \<^verbatim>\<open>Infrared.decode\<close>. Its first test is \<^verbatim>\<open>len(code) < 10 or len(code) // 2 == 0\<close>, under
  the comment that a short or even code is an error.
\<close>

definition decode :: "int list \<Rightarrow> py_error + (ir_format \<times> int list list) option" where
  "decode code =
     (if length code < 10 \<or> length code div 2 = 0 then Inr (Some (Unknown, []))
      else if cl_default (code ! 0) (T_AEHA * 8) \<and> cl_default (code ! 1) (T_AEHA * 4)
      then an_loop AEHA T_AEHA code 2 init_dstate
      else if cl_default (code ! 0) (T_NEC * 16) \<and> cl_default (code ! 1) (T_NEC * 8)
      then an_loop NEC T_NEC code 2 init_dstate
      else if cl_default (code ! 0) (T_SONY * 4) \<and> cl_default (code ! 1) T_SONY
      then sony_loop SONY T_SONY code 1 init_dstate
      else Inr (Some (Unknown, [])))"

section \<open>Capturing a timing code\<close>

text \<open>
  The attributes that \<^verbatim>\<open>Infrared.record\<close> and \<^verbatim>\<open>Infrared._call_back\<close> share:
  \<^verbatim>\<open>_code\<close>, \<^verbatim>\<open>last_tick\<close> and \<^verbatim>\<open>_recording\<close>.
\<close>

record rec_state =
  rcode :: "int list"
  last_tick :: int
  recording :: bool

text \<open>
  \<^verbatim>\<open>_call_back(gpio, level, tick)\<close> as a transition on that state. An event is the pair
  of \<^verbatim>\<open>level\<close> and \<^verbatim>\<open>tick\<close>; level 0 or 1 is an edge, any other level is the watchdog.
  \<^verbatim>\<open>pigpio.tickDiff\<close> belongs to the pigpio library and is a parameter here. The calls
  that program the watchdog act on pigpio only.
\<close>

definition call_back :: "(int \<Rightarrow> int \<Rightarrow> int) \<Rightarrow> rec_state \<Rightarrow> int \<times> int \<Rightarrow> rec_state" where
  "call_back tickDiff st ev =
     (case ev of (level, tick) \<Rightarrow>
        if \<not> recording st then st
        else if level = 0 \<or> level = 1 then
          (if last_tick st = 0 then st\<lparr>last_tick := tick\<rparr>
           else
             (let len = tickDiff (last_tick st) tick
              in if len > T_MAX_GAP then st\<lparr>recording := False\<rparr>
                 else
                   (let len1 = (if len < 1000 then round_m len 10
                                else if len < 2000 then round_m len 50
                                else round_m len 200)
                    in st\<lparr>rcode := rcode st @ [len1], last_tick := tick\<rparr>)))
        else st\<lparr>recording := False\<rparr>)"

text \<open>
  The polling loop of \<^verbatim>\<open>record\<close> looks at \<^verbatim>\<open>_recording\<close> once per sleep of 0.1 s. Its
  input here is the list of the event batches that pigpio delivers during the successive
  sleeps (no events once the list is used up); \<open>i\<close> counts the sleeps.
\<close>

function record_loop ::
  "(int \<Rightarrow> int \<Rightarrow> int) \<Rightarrow> int \<Rightarrow> (int \<times> int) list list \<Rightarrow> int \<Rightarrow> rec_state
     \<Rightarrow> rec_result \<times> int list" where
  "record_loop tickDiff timeout_count batches i st =
     (if recording st then
        (let st1 = foldl (call_back tickDiff) st (case batches of [] \<Rightarrow> [] | b # bs \<Rightarrow> b);
             i1 = i + 1
         in if i1 \<ge> timeout_count then (REC_NO_DATA, [])
            else record_loop tickDiff timeout_count (tl batches) i1 st1)
      else (if length (rcode st) > 10 then REC_SUCCESS else REC_SHORT, rcode st))"
  by pat_completeness auto
termination
  by (relation "measure (\<lambda>(tickDiff, timeout_count, batches, i, st). nat (timeout_count - i))") auto


section \<open>Auxiliary definitions for the statements\<close>

text \<open>
  \<open>sony_state_at code k\<close> is the state in which the SONY loop of \<open>decode code\<close> enters
  its iteration number \<open>k\<close>, at index \<open>2 * k + 1\<close>, and \<open>None\<close> when \<open>decode\<close> has left
  the loop before.
\<close>

fun sony_state_at :: "int list \<Rightarrow> nat \<Rightarrow> dstate option" where
  "sony_state_at code 0 = Some init_dstate"
| "sony_state_at code (Suc k) =
     (case sony_state_at code k of
        None \<Rightarrow> None
      | Some st \<Rightarrow>
          (if 2 * k + 1 < length code then
             (case sony_body SONY T_SONY code (2 * k + 1) st of
                Continue st' \<Rightarrow> Some st'
              | Return r \<Rightarrow> None
              | Raise e \<Rightarrow> None)
           else None))"


text \<open>
  The frames of the round trip. A frame of bytes is a non-empty list of values from 0 to
  255; a SONY frame is a pair of a 7-bit value and a value of at most 13 bits, as the
  docstring of the class gives it. \<open>decode_encoded\<close> is \<^verbatim>\<open>decode(encode(format, frames))\<close>,
  where an exception of \<^verbatim>\<open>encode\<close> goes through.
\<close>

definition valid_bytes_frame :: "int list \<Rightarrow> bool" where
  "valid_bytes_frame frame \<longleftrightarrow> frame \<noteq> [] \<and> (\<forall>b\<in>set frame. 0 \<le> b \<and> b \<le> 255)"

definition valid_sony_frame :: "int list \<Rightarrow> bool" where
  "valid_sony_frame frame \<longleftrightarrow>
     length frame = 2 \<and> 0 \<le> frame ! 0 \<and> frame ! 0 < 0x80 \<and> 0 \<le> frame ! 1 \<and> frame ! 1 < 0x2000"

definition decode_encoded ::
  "ir_format \<Rightarrow> int list list \<Rightarrow> py_error + (ir_format \<times> int list list) option" where
  "decode_encoded ir_format frs =
     (case encode ir_format frs of Inl e \<Rightarrow> Inl e | Inr code \<Rightarrow> decode code)"

text \<open>
  \<open>nec_wait frame\<close> is the space that \<open>encode\<close> puts between an NEC frame and the next
  one: \<open>t_count\<close> is 24 for the leader plus what \<open>frame_bytes\<close> counts for the data.
\<close>

definition nec_wait :: "int list \<Rightarrow> int" where
  "nec_wait frame = round_m (108000 - T_NEC * snd (frame_bytes T_NEC frame ([], 24))) 100"

text \<open>
  The code that \<open>encode\<close> builds, written without an accumulator for the proofs:
  \<open>pairs_of\<close> lists the mark and space pairs of the \<open>n\<close> low bits of \<open>d\<close>, \<open>units_of\<close>
  their count of base periods, \<open>frame_code\<close> and \<open>frame_units\<close> those of the bytes of a
  frame, and \<open>an_rest\<close> and \<open>sony_rest\<close> everything from a wait space to the end of the
  code.
\<close>

fun pairs_of :: "int \<Rightarrow> int \<Rightarrow> nat \<Rightarrow> int \<Rightarrow> int list" where
  "pairs_of t one 0 d = []"
| "pairs_of t one (Suc n) d = t # (if even d then t else one) # pairs_of t one n (d div 2)"

fun units_of :: "int \<Rightarrow> nat \<Rightarrow> int \<Rightarrow> int" where
  "units_of c 0 d = 0"
| "units_of c (Suc n) d = (if even d then 2 else c) + units_of c n (d div 2)"

definition frame_code :: "int \<Rightarrow> int list \<Rightarrow> int list" where
  "frame_code t frame = concat (map (pairs_of t (t * 3) 8) frame)"

definition frame_units :: "int list \<Rightarrow> int" where
  "frame_units frame = sum_list (map (units_of 4 8) frame)"

fun an_rest :: "ir_format \<Rightarrow> int \<Rightarrow> int \<Rightarrow> int list list \<Rightarrow> int list" where
  "an_rest f t tc [] = []"
| "an_rest f t tc (frame # frs) =
     (if f = AEHA then T_WAIT else round_m (108000 - t * tc) 100)
     # (if f = AEHA then [t * 8, t * 4] else [t * 16, t * 8])
     @ frame_code t frame @ [t]
     @ an_rest f t ((if f = AEHA then 12 else 24) + frame_units frame) frs"

definition sony_nbits :: "int \<Rightarrow> nat" where
  "sony_nbits hi = (if hi \<ge> 0x100 then 20 else if hi \<ge> 0x20 then 15 else 12)"

definition sony_word :: "int list \<Rightarrow> int" where
  "sony_word frame = frame ! 0 + push_bit 7 (frame ! 1)"

fun sony_rest :: "int \<Rightarrow> int \<Rightarrow> int list list \<Rightarrow> int list" where
  "sony_rest t tc [] = []"
| "sony_rest t tc (frame # frs) =
     round_m (45000 - t * tc) 100 # (t * 4)
     # pairs_of t (t * 2) (sony_nbits (frame ! 1)) (sony_word frame)
     @ sony_rest t (4 + units_of 3 (sony_nbits (frame ! 1)) (sony_word frame)) frs"

section \<open>Properties of the timing utilities\<close>

declare an_loop.simps [simp del] sony_loop.simps [simp del] record_loop.simps [simp del]

lemmas T_defs = T_AEHA_def T_NEC_def T_SONY_def T_WAIT_def T_MAX_GAP_def

lemma cl_default_int:
  "cl_default len target \<longleftrightarrow> 13 * target < 20 * len \<and> 20 * len < 27 * target"
proof -
  have a: "of_int target * (1 - 0.35) < (of_int len :: rat) \<longleftrightarrow> 13 * target < 20 * len"
  proof -
    have "of_int target * (1 - 0.35) < (of_int len :: rat)
          \<longleftrightarrow> (of_int (13 * target) :: rat) < of_int (20 * len)"
      by (simp add: field_simps)
    then show ?thesis by (simp only: of_int_less_iff)
  qed
  have b: "(of_int len :: rat) < of_int target * (1 + 0.35) \<longleftrightarrow> 20 * len < 27 * target"
  proof -
    have "(of_int len :: rat) < of_int target * (1 + 0.35)
          \<longleftrightarrow> (of_int (20 * len) :: rat) < of_int (27 * target)"
      by (simp add: field_simps)
    then show ?thesis by (simp only: of_int_less_iff)
  qed
  show ?thesis
    unfolding cl_default_def cl_def using a b by simp
qed

lemma round_m_props:
  assumes "0 < m"
  shows "m dvd round_m n m"
    and "\<bar>round_m n m - n\<bar> \<le> \<bar>k * m - n\<bar>"
    and "\<bar>k * m - n\<bar> = \<bar>round_m n m - n\<bar> \<Longrightarrow> k * m \<le> round_m n m"
proof -
  define q where "q = (n + m div 2) div m"
  have r: "round_m n m = q * m" by (simp add: round_m_def q_def)
  have md: "m * q + (n + m div 2) mod m = n + m div 2"
    by (simp add: q_def)
  have mb: "0 \<le> (n + m div 2) mod m" "(n + m div 2) mod m < m"
    using assms by simp_all
  have lo: "q * m \<le> n + m div 2"
    using md mb by (simp add: mult.commute)
  have hi: "n + m div 2 < (q + 1) * m"
    using md mb by (simp add: algebra_simps)
  have h2: "2 * (m div 2) \<le> m" "m \<le> 2 * (m div 2) + 1" by presburger+
  show "m dvd round_m n m" by (simp add: r)
  have cases: "k \<le> q - 1 \<or> k = q \<or> k \<ge> q + 1" by arith
  have km_lo: "k \<le> q - 1 \<Longrightarrow> k * m \<le> (q - 1) * m"
    using assms by (simp add: mult_right_mono)
  have km_hi: "k \<ge> q + 1 \<Longrightarrow> (q + 1) * m \<le> k * m"
    using assms by (simp add: mult_right_mono)
  have e1: "(q - 1) * m = q * m - m" "(q + 1) * m = q * m + m" by (simp_all add: algebra_simps)
  show "\<bar>round_m n m - n\<bar> \<le> \<bar>k * m - n\<bar>"
    using cases km_lo km_hi lo hi h2 unfolding r e1 by auto
  show "\<bar>k * m - n\<bar> = \<bar>round_m n m - n\<bar> \<Longrightarrow> k * m \<le> round_m n m"
    using cases km_lo km_hi lo hi h2 unfolding r e1 by auto
qed

text \<open>
  C8. For all integers \<open>n \<ge> 0\<close> and \<open>m > 0\<close>, \<open>round_m n m\<close> is \<open>(n + m div 2) div m * m\<close>
  under floor division; it is a multiple of \<open>m\<close>, no multiple of \<open>m\<close> is nearer to \<open>n\<close>,
  and every multiple of \<open>m\<close> that is as near is at most the result, so ties round up.
  The witness has \<open>round_m 1005 10 = 1010\<close> and \<open>round_m 1004 10 = 1000\<close>.
\<close>

theorem round_m_nearest_multiple:
  "0 \<le> n \<and> 0 < m \<longrightarrow>
     round_m n m = (n + m div 2) div m * m \<and> m dvd round_m n m
     \<and> (\<forall>k. \<bar>round_m n m - n\<bar> \<le> \<bar>k * m - n\<bar>)
     \<and> (\<forall>k. \<bar>k * m - n\<bar> = \<bar>round_m n m - n\<bar> \<longrightarrow> k * m \<le> round_m n m)"
proof (intro impI conjI allI)
  assume h: "0 \<le> n \<and> 0 < m"
  show "round_m n m = (n + m div 2) div m * m" by (simp add: round_m_def)
  show "m dvd round_m n m" using h by (simp add: round_m_props(1))
  show "\<bar>round_m n m - n\<bar> \<le> \<bar>k * m - n\<bar>" for k
    using h by (simp add: round_m_props(2))
  show "k * m \<le> round_m n m" if "\<bar>k * m - n\<bar> = \<bar>round_m n m - n\<bar>" for k
    using h that by (simp add: round_m_props(3))
qed

theorem round_m_nearest_multiple_witness:
  "(0::int) \<le> 1005 \<and> (0::int) < 10 \<and> round_m 1005 10 = 1010 \<and> round_m 1004 10 = 1000
   \<and> (10::int) dvd round_m 1005 10 \<and> \<bar>round_m 1005 10 - 1005\<bar> \<le> \<bar>100 * 10 - (1005::int)\<bar>
   \<and> 100 * 10 \<le> round_m 1005 10"
  using round_m_nearest_multiple [of 1005 10] round_m_nearest_multiple [of 1004 10]
  by (simp add: round_m_def)



section \<open>Properties of \<open>decode\<close> before its loops\<close>

text \<open>
  C4. A timing code with fewer than 10 elements decodes to \<open>(Unknown, [])\<close>, and so
  does a code of at least 10 elements whose first two elements match none of the leader
  patterns \<open>(8 * 425, 4 * 425)\<close>, \<open>(16 * 560, 8 * 560)\<close> and \<open>(4 * 600, 600)\<close> under
  tolerance 0.35.
\<close>

theorem decode_rejects_short_or_leaderless:
  "(length code < 10 \<longrightarrow> decode code = Inr (Some (Unknown, [])))
   \<and> (10 \<le> length code
        \<and> \<not> (cl (of_int (code ! 0)) (of_int (8 * 425)) 0.35
              \<and> cl (of_int (code ! 1)) (of_int (4 * 425)) 0.35)
        \<and> \<not> (cl (of_int (code ! 0)) (of_int (16 * 560)) 0.35
              \<and> cl (of_int (code ! 1)) (of_int (8 * 560)) 0.35)
        \<and> \<not> (cl (of_int (code ! 0)) (of_int (4 * 600)) 0.35
              \<and> cl (of_int (code ! 1)) (of_int 600) 0.35)
      \<longrightarrow> decode code = Inr (Some (Unknown, [])))"
  by (simp add: decode_def cl_default_def T_defs)

theorem decode_rejects_short_or_leaderless_witness:
  "decode [3400, 1700, 425] = Inr (Some (Unknown, []))
   \<and> decode [1000, 1000, 425, 425, 425, 425, 425, 425, 425, 425, 425] = Inr (Some (Unknown, []))"
  using decode_rejects_short_or_leaderless [of "[3400, 1700, 425]"]
    decode_rejects_short_or_leaderless
      [of "[1000, 1000, 425, 425, 425, 425, 425, 425, 425, 425, 425]"]
  by (simp add: cl_def)

section \<open>Frames of length 0 in \<open>encode\<close>\<close>

text \<open>
  C7 at frames of length 0. \<open>encode\<close> has no test of the frame's length: an empty AEHA or
  NEC frame is encoded as a leader and a stop mark, and an empty SONY frame raises
  \<^verbatim>\<open>IndexError\<close> at \<^verbatim>\<open>frame[0]\<close>. The \<^verbatim>\<open>encode\<close> of \<^verbatim>\<open>cgir.py\<close> returns the empty code
  on the same inputs.
\<close>

theorem encode_empty_frame:
  "encode AEHA [[]] = Inr [3400, 1700, 425]
   \<and> encode NEC [[1], []] =
       Inr ([8960, 4480, 560, 1680] @ concat (replicate 7 [560, 560])
            @ [560, 84500, 8960, 4480, 560])
   \<and> encode SONY [[]] = Inl IndexError
   \<and> encode_v1 AEHA [[]] = Inr [] \<and> encode_v1 NEC [[1], []] = Inr []
   \<and> encode_v1 SONY [[]] = Inr []"
  by (simp add: encode_def encode_v1_def T_defs round_m_def eval_nat_numeral)

section \<open>Codes of even length\<close>

text \<open>
  C2 at codes of even length. The first test of \<open>decode\<close> divides the length by 2 where
  its comment announces a test of parity, so an even code of 10 or more elements enters
  the loops. The AEHA and NEC loop then ends without a return and \<open>decode\<close> returns
  \<^verbatim>\<open>None\<close>; the SONY loop reads \<^verbatim>\<open>code[i + 1]\<close> at the last index and raises
  \<^verbatim>\<open>IndexError\<close>.
\<close>

theorem decode_even_length:
  "decode [3400, 1700, 425, 425, 425, 425, 425, 425, 425, 425] = Inr None
   \<and> decode [2400, 600, 600, 600, 600, 600, 600, 600, 600, 600] = Inl IndexError"
  by code_simp

section \<open>The stop bit in the middle of an AEHA or NEC code\<close>

text \<open>
  C3 at a stop bit that follows four data bits. The branch appends the byte list to the
  frames and sets \<open>byte\<close> to 0, and leaves \<open>bit_counter\<close> at 4: the four bits of the
  first frame are dropped, the four bits of the second frame are counted as bits 4 to 7
  of a byte, and \<open>decode\<close> returns the frames \<open>[[], [0]]\<close> for a code whose two frames
  have four bits each.
\<close>

theorem stop_bit_keeps_bit_counter:
  "an_body AEHA T_AEHA
     [3400, 1700, 425, 1275, 425, 1275, 425, 1275, 425, 1275, 425, 10000,
      3400, 1700, 425, 425, 425, 425, 425, 425, 425, 425, 425] 10
     \<lparr>frames = [], byte_list = [], byte = 15, bit_counter = 4, end_of_frame = False\<rparr>
   = Continue \<lparr>frames = [[]], byte_list = [], byte = 0, bit_counter = 4, end_of_frame = True\<rparr>
   \<and> decode [3400, 1700, 425, 1275, 425, 1275, 425, 1275, 425, 1275, 425, 10000,
      3400, 1700, 425, 425, 425, 425, 425, 425, 425, 425, 425] = Inr (Some (AEHA, [[], [0]]))"
  by code_simp

section \<open>The bit count of SONY frames\<close>

lemma an_body_format:
  "an_body f t code i st = Return (g, fs) \<Longrightarrow> g = f \<or> g = Unknown"
  by (auto simp add: an_body_def split: if_splits)

lemma an_loop_format:
  "an_loop f t code i st = Inr (Some (g, fs)) \<Longrightarrow> g = f \<or> g = Unknown"
proof (induction f t code i st rule: an_loop.induct)
  case (1 f t code i st)
  from "1.prems" show ?case
    by (subst (asm) an_loop.simps)
       (auto split: if_splits outcome.splits dest: an_body_format "1.IH")
qed

lemma decode_sony_loop:
  "decode code = Inr (Some (SONY, fs)) \<Longrightarrow>
     sony_loop SONY T_SONY code 1 init_dstate = Inr (Some (SONY, fs))"
  by (auto simp add: decode_def split: if_splits dest: an_loop_format)

lemma sony_leader_decode:
  "10 \<le> length code \<Longrightarrow> cl_default (code ! 0) (T_SONY * 4) \<Longrightarrow> cl_default (code ! 1) T_SONY \<Longrightarrow>
     decode code = sony_loop SONY T_SONY code 1 init_dstate"
proof -
  assume h: "10 \<le> length code" "cl_default (code ! 0) (T_SONY * 4)" "cl_default (code ! 1) T_SONY"
  have "length code div 2 \<noteq> 0" using h(1) by presburger
  then have e: "(length code div 2 = 0) = False" by blast
  show ?thesis
    using h by (simp add: decode_def cl_default_int T_defs e)
qed

lemma sony_body_return:
  "sony_body SONY t code i st = Return (SONY, fs) \<Longrightarrow>
     int i = int (length code) - 2 \<and>
     (bit_counter st + 1 = 12 \<or> bit_counter st + 1 = 15 \<or> bit_counter st + 1 = 20)"
  by (auto simp add: sony_body_def sony_last_def split: if_splits)

lemma sony_body_final:
  "int i = int (length code) - 2 \<Longrightarrow>
   \<not> (bit_counter st + 1 = 12 \<or> bit_counter st + 1 = 15 \<or> bit_counter st + 1 = 20) \<Longrightarrow>
   sony_body f t code i st = Return (Unknown, [])"
  by (auto simp add: sony_body_def sony_last_def)

lemma sony_loop_success:
  "sony_loop SONY T_SONY code i st = Inr (Some (SONY, fs)) \<Longrightarrow> i = 2 * k + 1 \<Longrightarrow>
   sony_state_at code k = Some st \<Longrightarrow>
   \<exists>k' st'. 2 * k' + 3 = length code \<and> sony_state_at code k' = Some st'
     \<and> (bit_counter st' + 1 = 12 \<or> bit_counter st' + 1 = 15 \<or> bit_counter st' + 1 = 20)"
proof (induction SONY T_SONY code i st arbitrary: k rule: sony_loop.induct)
  case (1 code i st)
  have i: "i < length code"
    using "1.prems"(1) by (subst (asm) sony_loop.simps) (simp split: if_splits)
  show ?case
  proof (cases "sony_body SONY T_SONY code i st")
    case (Continue st')
    have "sony_loop SONY T_SONY code (i + 2) st' = Inr (Some (SONY, fs))"
      using "1.prems"(1) i Continue by (subst (asm) sony_loop.simps) simp
    moreover have "sony_state_at code (Suc k) = Some st'"
      using "1.prems"(2,3) i Continue by simp
    ultimately show ?thesis
      using "1.hyps" [OF i Continue, of "Suc k"] "1.prems"(2) by simp
  next
    case (Return r)
    then have "r = (SONY, fs)"
      using "1.prems"(1) i by (subst (asm) sony_loop.simps) simp
    with Return have "int i = int (length code) - 2 \<and>
     (bit_counter st + 1 = 12 \<or> bit_counter st + 1 = 15 \<or> bit_counter st + 1 = 20)"
      using sony_body_return by blast
    then show ?thesis
      using "1.prems"(2,3) by (intro exI [of _ k] exI [of _ st]) auto
  next
    case (Raise e)
    then show ?thesis
      using "1.prems"(1) i by (subst (asm) sony_loop.simps) simp
  qed
qed

lemma sony_loop_state_at:
  "sony_state_at code k = Some st \<Longrightarrow>
     sony_loop SONY T_SONY code 1 init_dstate = sony_loop SONY T_SONY code (2 * k + 1) st"
proof (induction k arbitrary: st)
  case 0
  then show ?case by simp
next
  case (Suc k)
  from Suc.prems obtain st0 where s0: "sony_state_at code k = Some st0"
    and i: "2 * k + 1 < length code"
    and b: "sony_body SONY T_SONY code (2 * k + 1) st0 = Continue st"
    by (auto split: option.splits if_splits outcome.splits)
  have "sony_loop SONY T_SONY code (2 * k + 1) st0 = sony_loop SONY T_SONY code (2 * Suc k + 1) st"
    using i b by (subst sony_loop.simps) simp
  then show ?case using Suc.IH [OF s0] by simp
qed

text \<open>
  C6. When \<open>decode\<close> returns the format SONY, its loop has entered the iteration of the
  final pair, at index \<open>length code - 2\<close>, and the bit counter after that pair (the counter
  on entry plus one) is 12, 15 or 20. When a code with the SONY leader reaches the final
  pair with any other count, \<open>decode\<close> returns \<open>(Unknown, [])\<close>.
\<close>

theorem sony_final_count:
  "(decode code = Inr (Some (SONY, fs)) \<longrightarrow>
      (\<exists>k st. 2 * k + 3 = length code \<and> sony_state_at code k = Some st
         \<and> (bit_counter st + 1 = 12 \<or> bit_counter st + 1 = 15 \<or> bit_counter st + 1 = 20)))
   \<and> (10 \<le> length code \<and> cl_default (code ! 0) (T_SONY * 4) \<and> cl_default (code ! 1) T_SONY
        \<and> 2 * k + 3 = length code \<and> sony_state_at code k = Some st
        \<and> bit_counter st + 1 \<noteq> 12 \<and> bit_counter st + 1 \<noteq> 15 \<and> bit_counter st + 1 \<noteq> 20
      \<longrightarrow> decode code = Inr (Some (Unknown, [])))"
proof (intro conjI impI)
  assume "decode code = Inr (Some (SONY, fs))"
  then have "sony_loop SONY T_SONY code 1 init_dstate = Inr (Some (SONY, fs))"
    by (rule decode_sony_loop)
  then show "\<exists>k st. 2 * k + 3 = length code \<and> sony_state_at code k = Some st
         \<and> (bit_counter st + 1 = 12 \<or> bit_counter st + 1 = 15 \<or> bit_counter st + 1 = 20)"
    using sony_loop_success [of code 1 init_dstate fs 0] by simp
next
  assume h: "10 \<le> length code \<and> cl_default (code ! 0) (T_SONY * 4) \<and> cl_default (code ! 1) T_SONY
        \<and> 2 * k + 3 = length code \<and> sony_state_at code k = Some st
        \<and> bit_counter st + 1 \<noteq> 12 \<and> bit_counter st + 1 \<noteq> 15 \<and> bit_counter st + 1 \<noteq> 20"
  then have d: "decode code = sony_loop SONY T_SONY code (2 * k + 1) st"
    using sony_leader_decode [of code] sony_loop_state_at [of code k st] by simp
  have "int (2 * k + 1) = int (length code) - 2" using h by linarith
  then have "sony_body SONY T_SONY code (2 * k + 1) st = Return (Unknown, [])"
    using h by (intro sony_body_final) auto
  moreover have "2 * k + 1 < length code" using h by linarith
  ultimately show "decode code = Inr (Some (Unknown, []))"
    unfolding d by (subst sony_loop.simps) simp
qed


theorem sony_final_count_witness:
  "decode
     [2400, 600, 1200, 600, 600, 600, 600, 600, 600, 600, 600, 600, 600, 600, 600, 600,
     600, 600, 1200, 600, 600, 600, 600, 600, 600]
   = Inr (Some (SONY, [[1, 2]]))
   \<and> (\<exists>k st. 2 * k + 3 = length
           [2400::int, 600, 1200, 600, 600, 600, 600, 600, 600, 600, 600, 600, 600, 600, 600, 600,
     600, 600, 1200, 600, 600, 600, 600, 600, 600]
        \<and> sony_state_at
           [2400, 600, 1200, 600, 600, 600, 600, 600, 600, 600, 600, 600, 600, 600, 600, 600,
     600, 600, 1200, 600, 600, 600, 600, 600, 600] k = Some st
        \<and> (bit_counter st + 1 = 12 \<or> bit_counter st + 1 = 15 \<or> bit_counter st + 1 = 20))
   \<and> sony_state_at
       [2400, 600, 600, 600, 600, 600, 600, 600, 600, 600, 600, 600, 600, 600, 600, 600,
       600, 600, 600, 600, 600, 600, 600, 600, 600, 600, 600] 12
       = Some \<lparr>frames = [], byte_list = [], byte = 0, bit_counter = 12, end_of_frame = False\<rparr>
   \<and> decode
       [2400, 600, 600, 600, 600, 600, 600, 600, 600, 600, 600, 600, 600, 600, 600, 600,
       600, 600, 600, 600, 600, 600, 600, 600, 600, 600, 600]
       = Inr (Some (Unknown, []))"
proof -
  let ?c = "[2400, 600, 1200, 600, 600, 600, 600, 600, 600, 600, 600, 600, 600, 600,
             600, 600, 600, 600, 1200, 600, 600, 600, 600, 600, 600]"
  let ?d = "[2400, 600, 600, 600, 600, 600, 600, 600, 600, 600, 600, 600, 600, 600,
             600, 600, 600, 600, 600, 600, 600, 600, 600, 600, 600, 600, 600]"
  let ?st = "\<lparr>frames = [], byte_list = [], byte = 0, bit_counter = 12, end_of_frame = False\<rparr>"
  have a: "decode ?c = Inr (Some (SONY, [[1, 2]]))" by code_simp
  have b: "sony_state_at ?d 12 = Some ?st" by code_simp
  have c: "10 \<le> length ?d \<and> cl_default (?d ! 0) (T_SONY * 4) \<and> cl_default (?d ! 1) T_SONY
           \<and> 2 * 12 + 3 = length ?d"
    by (simp add: cl_default_int T_defs)
  have d: "decode ?d = Inr (Some (Unknown, []))"
    using sony_final_count [where code = "?d" and k = 12 and st = "?st"] b c by simp
  note e = sony_final_count [where code = "?c" and fs = "[[1, 2]]", THEN conjunct1, THEN mp, OF a]
  show ?thesis
    by (intro conjI a e b d)
qed

text \<open>
  C10. A frame boundary of the SONY loop (a space above \<open>T_WAIT * 0.5\<close>, then a mark
  within tolerance of \<open>4 * t\<close>, with at least 3 elements left) appends the frame and goes
  on, whatever the bit counter is. On the code below \<open>decode\<close> succeeds with the frames
  \<open>[[1, 0], [0, 0], [0, 0]]\<close>: the loop enters the boundary at index 3 with 1 bit counted
  and the boundary at index 5 with no bit counted, and only the last frame has 12 bits.
\<close>

theorem sony_boundary_unchecked:
  "(rat_of_int T_WAIT * 0.5 < rat_of_int (code ! i) \<and> cl_default (code ! (i + 1)) (t * 4)
      \<and> int i \<le> int (length code) - 3
    \<longrightarrow> sony_body f t code i st
        = Continue (st\<lparr>frames := sony_flush st, byte_list := [], byte := 0, bit_counter := 0\<rparr>))
   \<and> decode 
       [2400, 600, 1200, 45000, 2400, 6000, 2400, 600, 600, 600, 600, 600, 600, 600,
       600, 600, 600, 600, 600, 600, 600, 600, 600, 600, 600, 600, 600, 600, 600, 600,
       600]
       = Inr (Some (SONY, [[1, 0], [0, 0], [0, 0]]))
   \<and> sony_state_at 
       [2400, 600, 1200, 45000, 2400, 6000, 2400, 600, 600, 600, 600, 600, 600, 600,
       600, 600, 600, 600, 600, 600, 600, 600, 600, 600, 600, 600, 600, 600, 600, 600,
       600] 1
       = Some \<lparr>frames = [], byte_list = [], byte = 1, bit_counter = 1, end_of_frame = False\<rparr>
   \<and> sony_state_at 
       [2400, 600, 1200, 45000, 2400, 6000, 2400, 600, 600, 600, 600, 600, 600, 600,
       600, 600, 600, 600, 600, 600, 600, 600, 600, 600, 600, 600, 600, 600, 600, 600,
       600] 2
       = Some \<lparr>frames = [[1, 0]], byte_list = [], byte = 0, bit_counter = 0, end_of_frame = False\<rparr>
   \<and> sony_state_at 
       [2400, 600, 1200, 45000, 2400, 6000, 2400, 600, 600, 600, 600, 600, 600, 600,
       600, 600, 600, 600, 600, 600, 600, 600, 600, 600, 600, 600, 600, 600, 600, 600,
       600] 3
       = Some \<lparr>frames = [[1, 0], [0, 0]], byte_list = [], byte = 0, bit_counter = 0,
               end_of_frame = False\<rparr>"
proof (intro conjI impI)
  assume "rat_of_int T_WAIT * 0.5 < rat_of_int (code ! i) \<and> cl_default (code ! (i + 1)) (t * 4)
      \<and> int i \<le> int (length code) - 3"
  then show "sony_body f t code i st
        = Continue (st\<lparr>frames := sony_flush st, byte_list := [], byte := 0, bit_counter := 0\<rparr>)"
    by (auto simp add: sony_body_def)
qed code_simp+

theorem sony_boundary_unchecked_witness:
  "sony_body SONY T_SONY
     
       [2400, 600, 1200, 45000, 2400, 6000, 2400, 600, 600, 600, 600, 600, 600, 600,
       600, 600, 600, 600, 600, 600, 600, 600, 600, 600, 600, 600, 600, 600, 600, 600,
       600] 3
     \<lparr>frames = [], byte_list = [], byte = 1, bit_counter = 1, end_of_frame = False\<rparr>
   = Continue \<lparr>frames = [[1, 0]], byte_list = [], byte = 0, bit_counter = 0, end_of_frame = False\<rparr>"
proof -
  let ?c = "[2400, 600, 1200, 45000, 2400, 6000, 2400, 600, 600, 600, 600, 600, 600,
             600, 600, 600, 600, 600, 600, 600, 600, 600, 600, 600, 600, 600, 600, 600,
             600, 600, 600]"
  let ?st = "\<lparr>frames = [], byte_list = [], byte = 1, bit_counter = 1, end_of_frame = False\<rparr>"
  have h: "rat_of_int T_WAIT * 0.5 < rat_of_int (?c ! 3) \<and> cl_default (?c ! (3 + 1)) (T_SONY * 4)
      \<and> int 3 \<le> int (length ?c) - 3"
    by (simp add: cl_default_int T_defs)
  have f: "sony_flush ?st = [[1, 0]]"
    by (simp add: sony_flush_def)
  show ?thesis
    using sony_boundary_unchecked [where code = "?c" and i = 3 and t = T_SONY and f = SONY
        and st = "?st"] h f
    by simp
qed

section \<open>The capture state machine\<close>







section \<open>The round trip of \<open>encode\<close> and \<open>decode\<close>\<close>

subsection \<open>The code that \<open>encode\<close> builds, and the loops of \<open>decode\<close> on a suffix\<close>

lemma and_1_zero_iff: "(d :: int) AND 1 = 0 \<longleftrightarrow> even d"
  by (simp add: and_one_eq even_iff_mod_2_eq_zero)

lemma byte_bits_eq:
  "byte_bits t n d (code, tc) = (code @ pairs_of t (t * 3) n d, tc + units_of 4 n d)"
  by (induction n arbitrary: d code tc) (simp_all add: and_1_zero_iff drop_bit_eq_div)

lemma sony_bits_eq:
  "sony_bits t n d (code, tc) = (code @ pairs_of t (t * 2) n d, tc + units_of 3 n d)"
  by (induction n arbitrary: d code tc) (simp_all add: and_1_zero_iff drop_bit_eq_div)

lemma frame_bytes_eq:
  "frame_bytes t frame (code, tc) = (code @ frame_code t frame, tc + frame_units frame)"
  by (induction frame arbitrary: code tc)
     (simp_all add: frame_code_def frame_units_def byte_bits_eq)

lemma length_pairs_of: "length (pairs_of t one n d) = 2 * n"
  by (induction n arbitrary: d) simp_all

lemma units_of_le: "2 \<le> c \<Longrightarrow> units_of c n d \<le> c * int n"
proof (induction n arbitrary: d)
  case 0
  then show ?case by simp
next
  case (Suc n)
  have "units_of c n (d div 2) \<le> c * int n" by (rule Suc.IH [OF Suc.prems])
  then show ?case using Suc.prems by (auto simp add: algebra_simps)
qed

lemma an_body_shift:
  "i < length xs \<Longrightarrow> an_body f t (pre @ xs) (length pre + i) st = an_body f t xs i st"
  by (simp add: an_body_def nth_append add.assoc)

lemma an_loop_shift:
  "an_loop f t (pre @ xs) (length pre + i) st = an_loop f t xs i st"
proof (induction f t xs i st rule: an_loop.induct)
  case (1 f t xs i st)
  have L: "an_loop f t (pre @ xs) (length pre + i) st =
     (if length pre + i < length (pre @ xs) then
        (case an_body f t (pre @ xs) (length pre + i) st of
           Continue st' \<Rightarrow> an_loop f t (pre @ xs) (length pre + i + 2) st'
         | Return r \<Rightarrow> Inr (Some r)
         | Raise e \<Rightarrow> Inl e)
      else Inr None)"
    by (rule an_loop.simps)
  have R: "an_loop f t xs i st =
     (if i < length xs then
        (case an_body f t xs i st of
           Continue st' \<Rightarrow> an_loop f t xs (i + 2) st'
         | Return r \<Rightarrow> Inr (Some r)
         | Raise e \<Rightarrow> Inl e)
      else Inr None)"
    by (rule an_loop.simps)
  show ?case
  proof (cases "i < length xs")
    case True
    then show ?thesis
      using 1 by (subst L, subst R) (simp add: an_body_shift add.assoc split: outcome.splits)
  next
    case False
    then show ?thesis
      by (subst L, subst R) simp
  qed
qed

lemma an_loop_pair:
  "an_loop f t (m # s # rest) 0 st =
     (case an_body f t (m # s # rest) 0 st of
        Continue st' \<Rightarrow> an_loop f t rest 0 st'
      | Return r \<Rightarrow> Inr (Some r)
      | Raise e \<Rightarrow> Inl e)"
  using an_loop_shift [of f t "[m, s]" rest 0]
  by (subst an_loop.simps) (simp split: outcome.splits)

lemma an_loop_single:
  "an_loop f t [m] 0 st =
     (case an_body f t [m] 0 st of
        Continue st' \<Rightarrow> Inr None
      | Return r \<Rightarrow> Inr (Some r)
      | Raise e \<Rightarrow> Inl e)"
proof -
  have "an_loop f t [m] (Suc (Suc 0)) st' = Inr None" for st'
    by (subst an_loop.simps) simp
  then show ?thesis
    by (subst an_loop.simps) (simp split: outcome.splits)
qed

lemma an_bit_zero:
  assumes "0 < t" "t * 3 \<le> 5000"
  shows "an_loop f t (t # t # rest) 0
           \<lparr>frames = fr, byte_list = bl, byte = v, bit_counter = k, end_of_frame = False\<rparr>
         = an_loop f t rest 0
           (next_bit \<lparr>frames = fr, byte_list = bl, byte = v, bit_counter = k, end_of_frame = False\<rparr>)"
  using assms by (subst an_loop_pair) (simp add: an_body_def cl_default_int T_defs)

lemma an_bit_one:
  assumes "0 < t" "t * 3 \<le> 5000"
  shows "an_loop f t (t # t * 3 # rest) 0
           \<lparr>frames = fr, byte_list = bl, byte = v, bit_counter = k, end_of_frame = False\<rparr>
         = an_loop f t rest 0
           (next_bit \<lparr>frames = fr, byte_list = bl, byte = v + 2 ^ k, bit_counter = k,
              end_of_frame = False\<rparr>)"
  using assms by (subst an_loop_pair) (simp add: an_body_def cl_default_int T_defs)

lemma an_bits:
  assumes "0 < t" "t * 3 \<le> 5000"
  shows "k + n = 8 \<Longrightarrow> 0 < n \<Longrightarrow>
     an_loop f t (pairs_of t (t * 3) n d @ rest) 0
       \<lparr>frames = fr, byte_list = bl, byte = v, bit_counter = k, end_of_frame = False\<rparr>
     = an_loop f t rest 0
       \<lparr>frames = fr, byte_list = bl @ [v + (d mod 2 ^ n) * 2 ^ k], byte = 0, bit_counter = 0,
         end_of_frame = False\<rparr>"
proof (induction n arbitrary: k v d)
  case 0
  then show ?case by simp
next
  case (Suc n)
  show ?case
  proof (cases "n = 0")
    case True
    then have k: "k = 7" using Suc.prems by simp
    show ?thesis
      using True k assms
      by (cases "even d")
         (simp_all add: an_bit_zero an_bit_one next_bit_def Let_def even_iff_mod_2_eq_zero
           odd_iff_mod_2_eq_one)
  next
    case False
    then have k: "Suc k + n = 8" "0 < n" "(k + 1) mod 8 = k + 1" using Suc.prems by simp_all
    have m: "(d mod 2 ^ Suc n) = d mod 2 + 2 * ((d div 2) mod 2 ^ n)"
      by (simp add: zmod_zmult2_eq)
    show ?thesis
    proof (cases "even d")
      case True
      then have "d mod 2 = 0" by (simp add: even_iff_mod_2_eq_zero)
      then show ?thesis
        using True k assms Suc.IH [where k = "Suc k" and v = v and d = "d div 2"] m
        by (simp add: an_bit_zero next_bit_def Let_def algebra_simps)
    next
      case False
      then have "d mod 2 = 1" by (simp add: odd_iff_mod_2_eq_one)
      then show ?thesis
        using False k assms Suc.IH [where k = "Suc k" and v = "v + 2 ^ k" and d = "d div 2"] m
        by (simp add: an_bit_one next_bit_def Let_def algebra_simps)
    qed
  qed
qed

lemma half_wait: "rat_of_int T_WAIT * 0.5 < rat_of_int w \<longleftrightarrow> 5000 < w"
proof -
  have "rat_of_int T_WAIT * 0.5 = rat_of_int 5000" by (simp add: T_defs)
  then show ?thesis by (simp only: of_int_less_iff)
qed

lemma half_wait2: "rat_of_int T_WAIT < rat_of_int w * 2 \<longleftrightarrow> 5000 < w"
proof -
  have "rat_of_int T_WAIT < rat_of_int w * 2 \<longleftrightarrow> rat_of_int 10000 < rat_of_int (w * 2)"
    by (simp add: T_defs)
  also have "\<dots> \<longleftrightarrow> 10000 < w * 2" by (simp only: of_int_less_iff)
  finally show ?thesis by auto
qed

lemma nec_wait_eq: "nec_wait frame = round_m (108000 - 560 * (24 + frame_units frame)) 100"
  by (simp add: nec_wait_def frame_bytes_eq T_defs)

lemma length_frame_code: "length (frame_code t frame) = 16 * length frame"
  by (induction frame) (simp_all add: frame_code_def length_pairs_of)

lemma frame_code_Cons: "frame_code t (b # frame) = pairs_of t (t * 3) 8 b @ frame_code t frame"
  by (simp add: frame_code_def)

lemma an_frame_bytes:
  assumes "0 < t" "t * 3 \<le> 5000"
  shows "\<forall>b\<in>set frame. 0 \<le> b \<and> b \<le> 255 \<Longrightarrow>
     an_loop f t (frame_code t frame @ rest) 0
       \<lparr>frames = fr, byte_list = bl, byte = 0, bit_counter = 0, end_of_frame = False\<rparr>
     = an_loop f t rest 0
       \<lparr>frames = fr, byte_list = bl @ frame, byte = 0, bit_counter = 0, end_of_frame = False\<rparr>"
proof (induction frame arbitrary: bl)
  case Nil
  then show ?case by (simp add: frame_code_def)
next
  case (Cons b frame)
  have b: "b mod 2 ^ 8 = b" using Cons.prems by simp
  have "an_loop f t (frame_code t (b # frame) @ rest) 0
       \<lparr>frames = fr, byte_list = bl, byte = 0, bit_counter = 0, end_of_frame = False\<rparr>
     = an_loop f t (frame_code t frame @ rest) 0
       \<lparr>frames = fr, byte_list = bl @ [b], byte = 0, bit_counter = 0, end_of_frame = False\<rparr>"
    using an_bits [OF assms, of 0 8 f b "frame_code t frame @ rest" fr bl 0] b
    by (simp add: frame_code_Cons)
  also have "\<dots> = an_loop f t rest 0
       \<lparr>frames = fr, byte_list = (bl @ [b]) @ frame, byte = 0, bit_counter = 0,
         end_of_frame = False\<rparr>"
    using Cons.prems by (intro Cons.IH) simp
  finally show ?case by simp
qed

lemma encode_loop_an:
  "f = AEHA \<or> f = NEC \<Longrightarrow>
     encode_loop f t frs False (code, tc) = Inr (code @ an_rest f t tc frs)"
  by (induction frs arbitrary: code tc) (auto simp add: frame_bytes_eq)

lemma encode_an:
  "encode AEHA (frame # frs)
     = Inr ([T_AEHA * 8, T_AEHA * 4] @ frame_code T_AEHA frame @ [T_AEHA]
            @ an_rest AEHA T_AEHA (12 + frame_units frame) frs)"
  "encode NEC (frame # frs)
     = Inr ([T_NEC * 16, T_NEC * 8] @ frame_code T_NEC frame @ [T_NEC]
            @ an_rest NEC T_NEC (24 + frame_units frame) frs)"
  by (simp_all add: encode_def frame_bytes_eq encode_loop_an)

lemma an_stop_wait:
  assumes "0 < t" "t * 3 \<le> 5000" "5000 < w"
  shows "an_loop f t (t # w # rest) 0
           \<lparr>frames = fr, byte_list = bl, byte = 0, bit_counter = 0, end_of_frame = False\<rparr>
         = an_loop f t rest 0
           \<lparr>frames = fr @ [bl], byte_list = [], byte = 0, bit_counter = 0, end_of_frame = True\<rparr>"
  using assms by (subst an_loop_pair) (simp add: an_body_def cl_default_int half_wait half_wait2)

lemma an_leader:
  assumes "(f = AEHA \<and> a = 3400 \<and> b = 1700) \<or> (f = NEC \<and> a = 8960 \<and> b = 4480)"
  shows "an_loop f t (a # b # x # rest) 0
           \<lparr>frames = fr, byte_list = bl, byte = v, bit_counter = k, end_of_frame = True\<rparr>
         = an_loop f t (x # rest) 0
           \<lparr>frames = fr, byte_list = bl, byte = v, bit_counter = k, end_of_frame = False\<rparr>"
  using assms by (subst an_loop_pair) (auto simp add: an_body_def cl_default_int T_defs)

lemma an_final_stop:
  assumes "0 < t"
  shows "an_loop f t [t] 0
           \<lparr>frames = fr, byte_list = bl, byte = v, bit_counter = 0, end_of_frame = False\<rparr>
         = Inr (Some (f, fr @ [bl]))"
  using assms by (subst an_loop_single) (simp add: an_body_def cl_default_int)

lemma an_decode_rest:
  assumes ft: "(f = AEHA \<and> t = (425::int)) \<or> (f = NEC \<and> t = 560)"
  shows "\<forall>x\<in>set frs. \<forall>b\<in>set x. 0 \<le> b \<and> b \<le> 255 \<Longrightarrow>
     (f = NEC \<longrightarrow> frs \<noteq> [] \<longrightarrow> 5000 < round_m (108000 - 560 * tc) 100) \<Longrightarrow>
     (f = NEC \<longrightarrow> (\<forall>x\<in>set (butlast frs). 5000 < nec_wait x)) \<Longrightarrow>
     an_loop f t (t # an_rest f t tc frs) 0
       \<lparr>frames = fr, byte_list = bl, byte = 0, bit_counter = 0, end_of_frame = False\<rparr>
     = Inr (Some (f, fr @ [bl] @ frs))"
proof (induction frs arbitrary: tc fr bl)
  case Nil
  show ?case using ft by (auto simp add: an_final_stop)
next
  case (Cons x xs)
  have t: "0 < t" "t * 3 \<le> 5000" using ft by auto
  define w where "w = (if f = AEHA then T_WAIT else round_m (108000 - t * tc) 100)"
  define a where "a = (if f = AEHA then t * 8 else t * 16)"
  define b where "b = (if f = AEHA then t * 4 else t * 8)"
  define tc' where "tc' = (if f = AEHA then 12 else 24) + frame_units x"
  have w: "5000 < w" using ft Cons.prems(2) by (auto simp add: w_def T_defs)
  have ab: "(f = AEHA \<and> a = 3400 \<and> b = 1700) \<or> (f = NEC \<and> a = 8960 \<and> b = 4480)"
    using ft by (auto simp add: a_def b_def)
  have r: "an_rest f t tc (x # xs) = w # a # b # frame_code t x @ t # an_rest f t tc' xs"
    by (simp add: w_def a_def b_def tc'_def)
  have p2: "f = NEC \<longrightarrow> xs \<noteq> [] \<longrightarrow> 5000 < round_m (108000 - 560 * tc') 100"
    using Cons.prems(3) ft by (auto simp add: nec_wait_eq tc'_def)
  have p3: "f = NEC \<longrightarrow> (\<forall>x\<in>set (butlast xs). 5000 < nec_wait x)"
    using Cons.prems(3) by (auto split: if_splits)
  have p1: "\<forall>x\<in>set xs. \<forall>b\<in>set x. 0 \<le> b \<and> b \<le> 255"
    and px: "\<forall>b\<in>set x. 0 \<le> b \<and> b \<le> 255"
    using Cons.prems(1) by auto
  obtain y ys where ys: "frame_code t x @ t # an_rest f t tc' xs = y # ys"
    by (cases "frame_code t x @ t # an_rest f t tc' xs") auto
  have "an_loop f t (t # an_rest f t tc (x # xs)) 0
       \<lparr>frames = fr, byte_list = bl, byte = 0, bit_counter = 0, end_of_frame = False\<rparr>
     = an_loop f t (a # b # frame_code t x @ t # an_rest f t tc' xs) 0
       \<lparr>frames = fr @ [bl], byte_list = [], byte = 0, bit_counter = 0, end_of_frame = True\<rparr>"
    unfolding r by (rule an_stop_wait [OF t w])
  also have "\<dots> = an_loop f t (frame_code t x @ t # an_rest f t tc' xs) 0
       \<lparr>frames = fr @ [bl], byte_list = [], byte = 0, bit_counter = 0, end_of_frame = False\<rparr>"
    unfolding ys by (rule an_leader [OF ab])
  also have "\<dots> = an_loop f t (t # an_rest f t tc' xs) 0
       \<lparr>frames = fr @ [bl], byte_list = [] @ x, byte = 0, bit_counter = 0, end_of_frame = False\<rparr>"
    by (rule an_frame_bytes [OF t px])
  also have "\<dots> = Inr (Some (f, (fr @ [bl]) @ [[] @ x] @ xs))"
    by (rule Cons.IH [OF p1 p2 p3])
  finally show ?case by simp
qed

lemma an_loop_drop2: "an_loop f t (a # b # xs) 2 st = an_loop f t xs 0 st"
  using an_loop_shift [of f t "[a, b]" xs 0 st] by (simp add: numeral_2_eq_2)

lemma decode_encode_an:
  assumes ft: "(f = AEHA \<and> t = (425::int)) \<or> (f = NEC \<and> t = 560)"
    and ne: "frs \<noteq> []"
    and v: "\<forall>x\<in>set frs. valid_bytes_frame x"
    and w: "f = NEC \<longrightarrow> (\<forall>x\<in>set (butlast frs). 5000 < nec_wait x)"
  shows "decode_encoded f frs = Inr (Some (f, frs))"
proof -
  obtain x xs where frs: "frs = x # xs" using ne by (cases frs) auto
  define a where "a = (if f = AEHA then t * 8 else t * 16)"
  define b where "b = (if f = AEHA then t * 4 else t * 8)"
  define tc where "tc = (if f = AEHA then 12 else 24) + frame_units x"
  define code where "code = [a, b] @ frame_code t x @ t # an_rest f t tc xs"
  have t: "0 < t" "t * 3 \<le> 5000" using ft by auto
  have e: "encode f frs = Inr code"
    using ft by (auto simp add: frs encode_an code_def a_def b_def tc_def T_defs)
  have xne: "x \<noteq> []" using v by (simp add: frs valid_bytes_frame_def)
  have px: "\<forall>b\<in>set x. 0 \<le> b \<and> b \<le> 255"
    and p1: "\<forall>x\<in>set xs. \<forall>b\<in>set x. 0 \<le> b \<and> b \<le> 255"
    using v by (simp_all add: frs valid_bytes_frame_def)
  have p2: "f = NEC \<longrightarrow> xs \<noteq> [] \<longrightarrow> 5000 < round_m (108000 - 560 * tc) 100"
    using w ft by (auto simp add: frs nec_wait_eq tc_def)
  have p3: "f = NEC \<longrightarrow> (\<forall>x\<in>set (butlast xs). 5000 < nec_wait x)"
    using w by (auto simp add: frs split: if_splits)
  have len: "10 \<le> length code"
    using xne by (cases x) (simp_all add: code_def length_frame_code)
  then have e2: "(length code < 10) = False" "(length code div 2 = 0) = False"
    by presburger+
  have c0: "code ! 0 = a" "code ! Suc 0 = b" by (simp_all add: code_def)
  have loop: "an_loop f t code 2 init_dstate = Inr (Some (f, frs))"
  proof -
    have "an_loop f t code 2 init_dstate
          = an_loop f t (frame_code t x @ t # an_rest f t tc xs) 0 init_dstate"
      by (simp add: code_def an_loop_drop2)
    also have "\<dots> = an_loop f t (t # an_rest f t tc xs) 0
       \<lparr>frames = [], byte_list = [] @ x, byte = 0, bit_counter = 0, end_of_frame = False\<rparr>"
      unfolding init_dstate_def by (rule an_frame_bytes [OF t px])
    also have "\<dots> = Inr (Some (f, [] @ [[] @ x] @ xs))"
      by (rule an_decode_rest [OF ft p1 p2 p3])
    finally show ?thesis by (simp add: frs)
  qed
  have "decode code = Inr (Some (f, frs))"
  proof (cases "f = AEHA")
    case True
    then show ?thesis
      using ft loop by (simp add: decode_def e2 c0 a_def b_def cl_default_int T_defs)
  next
    case False
    then show ?thesis
      using ft loop by (simp add: decode_def e2 c0 a_def b_def cl_default_int T_defs)
  qed
  then show ?thesis by (simp add: decode_encoded_def e)
qed

lemma sony_data_eq:
  "length frame = 2 \<Longrightarrow>
     sony_data t frame (code, tc)
     = Inr (code @ pairs_of t (t * 2) (sony_nbits (frame ! 1)) (sony_word frame),
            tc + units_of 3 (sony_nbits (frame ! 1)) (sony_word frame))"
proof -
  assume "length frame = 2"
  then obtain lo hi where f: "frame = [lo, hi]"
    by (cases frame; cases "tl frame") auto
  show ?thesis
    unfolding f by (simp add: sony_bits_eq sony_nbits_def sony_word_def Let_def)
qed

lemma encode_loop_sony:
  "\<forall>x\<in>set frs. length x = 2 \<Longrightarrow>
     encode_loop SONY t frs False (code, tc) = Inr (code @ sony_rest t tc frs)"
  by (induction frs arbitrary: code tc) (simp_all add: sony_data_eq)

lemma encode_sony:
  "\<forall>x\<in>set (frame # frs). length x = 2 \<Longrightarrow>
   encode SONY (frame # frs)
     = Inr (T_SONY * 4 # pairs_of T_SONY (T_SONY * 2) (sony_nbits (frame ! 1)) (sony_word frame)
            @ sony_rest T_SONY (4 + units_of 3 (sony_nbits (frame ! 1)) (sony_word frame)) frs)"
  by (simp add: encode_def sony_data_eq encode_loop_sony)

lemma sony_body_shift:
  "i < length xs \<Longrightarrow> sony_body f t (pre @ xs) (length pre + i) st = sony_body f t xs i st"
  by (simp add: sony_body_def sony_last_def nth_append add.assoc)

lemma sony_loop_shift:
  "sony_loop f t (pre @ xs) (length pre + i) st = sony_loop f t xs i st"
proof (induction f t xs i st rule: sony_loop.induct)
  case (1 f t xs i st)
  have L: "sony_loop f t (pre @ xs) (length pre + i) st =
     (if length pre + i < length (pre @ xs) then
        (case sony_body f t (pre @ xs) (length pre + i) st of
           Continue st' \<Rightarrow> sony_loop f t (pre @ xs) (length pre + i + 2) st'
         | Return r \<Rightarrow> Inr (Some r)
         | Raise e \<Rightarrow> Inl e)
      else Inr None)"
    by (rule sony_loop.simps)
  have R: "sony_loop f t xs i st =
     (if i < length xs then
        (case sony_body f t xs i st of
           Continue st' \<Rightarrow> sony_loop f t xs (i + 2) st'
         | Return r \<Rightarrow> Inr (Some r)
         | Raise e \<Rightarrow> Inl e)
      else Inr None)"
    by (rule sony_loop.simps)
  show ?case
  proof (cases "i < length xs")
    case True
    then show ?thesis
      using 1 by (subst L, subst R) (simp add: sony_body_shift add.assoc split: outcome.splits)
  next
    case False
    then show ?thesis
      by (subst L, subst R) simp
  qed
qed

lemma sony_loop_pair:
  "sony_loop f t (s # m # rest) 0 st =
     (case sony_body f t (s # m # rest) 0 st of
        Continue st' \<Rightarrow> sony_loop f t rest 0 st'
      | Return r \<Rightarrow> Inr (Some r)
      | Raise e \<Rightarrow> Inl e)"
  using sony_loop_shift [of f t "[s, m]" rest 0]
  by (subst sony_loop.simps) (simp split: outcome.splits)

lemma sony_loop_drop1: "sony_loop f t (a # xs) 1 st = sony_loop f t xs 0 st"
  using sony_loop_shift [of f t "[a]" xs 0 st] by simp

lemma sony_body_bit:
  assumes "0 < t" "t \<le> 5000" "m = t \<or> m = t * 2"
  shows "sony_body f t (t # m # rest) 0
           \<lparr>frames = fr, byte_list = bl, byte = v, bit_counter = k, end_of_frame = e\<rparr>
         = sony_last f (t # m # rest) 0
           \<lparr>frames = fr, byte_list = bl, byte = (if m = t then v else v + 2 ^ k),
             bit_counter = k + 1, end_of_frame = e\<rparr>"
  using assms by (auto simp add: sony_body_def cl_default_int half_wait half_wait2)

lemma sony_bit_mid:
  assumes "0 < t" "t \<le> 5000" "m = t \<or> m = t * 2" "rest \<noteq> []"
  shows "sony_loop f t (t # m # rest) 0
           \<lparr>frames = fr, byte_list = bl, byte = v, bit_counter = k, end_of_frame = e\<rparr>
         = sony_loop f t rest 0
           \<lparr>frames = fr, byte_list = bl, byte = (if m = t then v else v + 2 ^ k),
             bit_counter = k + 1, end_of_frame = e\<rparr>"
proof -
  have "int 0 \<noteq> int (length (t # m # rest)) - 2" using assms(4) by (cases rest) auto
  then show ?thesis
    by (subst sony_loop_pair, subst sony_body_bit [OF assms(1-3)]) (simp add: sony_last_def)
qed

lemma sony_bit_final:
  assumes "0 < t" "t \<le> 5000" "m = t \<or> m = t * 2"
  shows "sony_loop f t [t, m] 0
           \<lparr>frames = fr, byte_list = bl, byte = v, bit_counter = k, end_of_frame = e\<rparr>
         = (if k + 1 = 12 \<or> k + 1 = 15 \<or> k + 1 = 20
            then Inr (Some (f, fr @ [bl @ [(if m = t then v else v + 2 ^ k) AND 0x7F,
                                           drop_bit 7 (if m = t then v else v + 2 ^ k)]]))
            else Inr (Some (Unknown, [])))"
  by (subst sony_loop_pair, subst sony_body_bit [OF assms(1-3)])
     (simp add: sony_last_def sony_flush_def)

lemma pairs_of_Suc_mid:
  "pairs_of t (t * 2) (Suc n) d = t # (if even d then t else t * 2) # pairs_of t (t * 2) n (d div 2)"
  by simp

lemma pairs_of_nonempty: "0 < n \<Longrightarrow> pairs_of t one n d \<noteq> []"
  by (cases n) simp_all

lemma bit_step:
  "(if even d then (v::int) else v + 2 ^ k) + (d div 2 mod 2 ^ n) * 2 ^ (k + 1)
   = v + (d mod 2 ^ Suc n) * 2 ^ k"
proof -
  have m: "d mod (2 * 2 ^ n) = d mod 2 + 2 * ((d div 2) mod 2 ^ n)"
    by (simp add: zmod_zmult2_eq)
  show ?thesis
  proof (cases "even d")
    case True
    then have "d mod 2 = 0" by (simp add: even_iff_mod_2_eq_zero)
    with m have "d mod (2 * 2 ^ n) = 2 * (d div 2 mod 2 ^ n)" by simp
    then show ?thesis using True by (simp add: algebra_simps)
  next
    case False
    then have "d mod 2 = 1" by (simp add: odd_iff_mod_2_eq_one)
    with m have "d mod (2 * 2 ^ n) = 1 + 2 * (d div 2 mod 2 ^ n)" by simp
    then show ?thesis using False by (simp add: algebra_simps)
  qed
qed

lemma sony_bits_mid:
  assumes "0 < t" "t \<le> 5000"
  shows "rest \<noteq> [] \<Longrightarrow>
     sony_loop f t (pairs_of t (t * 2) n d @ rest) 0
       \<lparr>frames = fr, byte_list = bl, byte = v, bit_counter = k, end_of_frame = e\<rparr>
     = sony_loop f t rest 0
       \<lparr>frames = fr, byte_list = bl, byte = v + (d mod 2 ^ n) * 2 ^ k, bit_counter = k + n,
         end_of_frame = e\<rparr>"
proof (induction n arbitrary: k v d)
  case 0
  then show ?case by simp
next
  case (Suc n)
  let ?m = "if even d then t else t * 2"
  let ?v = "if even d then v else v + 2 ^ k"
  have m: "?m = t \<or> ?m = t * 2" by simp
  have ne: "pairs_of t (t * 2) n (d div 2) @ rest \<noteq> []" using Suc.prems by simp
  have v: "(if ?m = t then v else v + 2 ^ k) = ?v" using assms(1) by simp
  have "sony_loop f t (pairs_of t (t * 2) (Suc n) d @ rest) 0
       \<lparr>frames = fr, byte_list = bl, byte = v, bit_counter = k, end_of_frame = e\<rparr>
     = sony_loop f t (pairs_of t (t * 2) n (d div 2) @ rest) 0
       \<lparr>frames = fr, byte_list = bl, byte = ?v, bit_counter = k + 1, end_of_frame = e\<rparr>"
    unfolding pairs_of_Suc_mid append_Cons
    by (subst sony_bit_mid [OF assms m ne]) (simp only: v)
  also have "\<dots> = sony_loop f t rest 0
       \<lparr>frames = fr, byte_list = bl, byte = ?v + (d div 2 mod 2 ^ n) * 2 ^ (k + 1),
         bit_counter = k + 1 + n, end_of_frame = e\<rparr>"
    by (rule Suc.IH [OF Suc.prems])
  finally show ?case by (simp only: bit_step) simp
qed

lemma sony_bits_final:
  assumes "0 < t" "t \<le> 5000"
  shows "0 < n \<Longrightarrow>
     sony_loop f t (pairs_of t (t * 2) n d) 0
       \<lparr>frames = fr, byte_list = bl, byte = v, bit_counter = k, end_of_frame = e\<rparr>
     = (if k + n = 12 \<or> k + n = 15 \<or> k + n = 20
        then Inr (Some (f, fr @ [bl @ [(v + (d mod 2 ^ n) * 2 ^ k) AND 0x7F,
                                       drop_bit 7 (v + (d mod 2 ^ n) * 2 ^ k)]]))
        else Inr (Some (Unknown, [])))"
proof (induction n arbitrary: k v d)
  case 0
  then show ?case by simp
next
  case (Suc n)
  let ?m = "if even d then t else t * 2"
  let ?v = "if even d then v else v + 2 ^ k"
  have m: "?m = t \<or> ?m = t * 2" by simp
  have v: "(if ?m = t then v else v + 2 ^ k) = ?v" using assms(1) by simp
  show ?case
  proof (cases "n = 0")
    case True
    have b: "?v = v + (d mod 2 ^ Suc 0) * 2 ^ k"
      using bit_step [of d v k 0] by simp
    show ?thesis
      unfolding True pairs_of_Suc_mid pairs_of.simps(1)
      by (subst sony_bit_final [OF assms m]) (simp only: v b, simp)
  next
    case False
    then have n: "0 < n" by simp
    have ne: "pairs_of t (t * 2) n (d div 2) \<noteq> []" using n by (rule pairs_of_nonempty)
    have "sony_loop f t (pairs_of t (t * 2) (Suc n) d) 0
       \<lparr>frames = fr, byte_list = bl, byte = v, bit_counter = k, end_of_frame = e\<rparr>
     = sony_loop f t (pairs_of t (t * 2) n (d div 2)) 0
       \<lparr>frames = fr, byte_list = bl, byte = ?v, bit_counter = k + 1, end_of_frame = e\<rparr>"
      unfolding pairs_of_Suc_mid
      by (subst sony_bit_mid [OF assms m ne]) (simp only: v)
    also have "\<dots> = (if k + 1 + n = 12 \<or> k + 1 + n = 15 \<or> k + 1 + n = 20
        then Inr (Some (f, fr @ [bl @ [(?v + (d div 2 mod 2 ^ n) * 2 ^ (k + 1)) AND 0x7F,
                                drop_bit 7 (?v + (d div 2 mod 2 ^ n) * 2 ^ (k + 1))]]))
        else Inr (Some (Unknown, [])))"
      by (rule Suc.IH [OF n])
    finally show ?thesis by (simp only: bit_step) simp
  qed
qed

lemma sony_boundary:
  assumes "0 < t" "5000 < w" "rest \<noteq> []"
  shows "sony_loop f t (w # t * 4 # rest) 0
           \<lparr>frames = fr, byte_list = bl, byte = v, bit_counter = k, end_of_frame = e\<rparr>
         = sony_loop f t rest 0
           \<lparr>frames = fr @ [bl @ [v AND 0x7F, drop_bit 7 v]], byte_list = [], byte = 0,
             bit_counter = 0, end_of_frame = e\<rparr>"
proof -
  have "int 0 \<le> int (length (w # t * 4 # rest)) - 3" using assms(3) by (cases rest) auto
  then show ?thesis
    using assms(1,2)
    by (subst sony_loop_pair)
       (simp add: sony_body_def sony_flush_def cl_default_int half_wait half_wait2)
qed

lemma sony_wait_ok: "tc \<le> 64 \<Longrightarrow> 5000 < round_m (45000 - 600 * tc) 100"
proof -
  assume "tc \<le> 64"
  then have "5100 \<le> 45050 - 600 * tc" by simp
  moreover have "5100 \<le> z \<Longrightarrow> 51 \<le> z div 100" for z :: int by presburger
  ultimately have "51 \<le> (45050 - 600 * tc) div 100" by blast
  then show ?thesis by (simp add: round_m_def)
qed

lemma and_127: "(x::int) AND 0x7F = x mod 128"
proof -
  have "x AND mask 7 = take_bit 7 x" by (simp add: take_bit_eq_mask)
  then show ?thesis by (simp add: take_bit_eq_mod mask_eq_exp_minus_1)
qed

lemma sony_word_split:
  assumes "valid_sony_frame x"
  shows "[sony_word x AND 0x7F, drop_bit 7 (sony_word x)] = x"
    and "0 \<le> sony_word x" and "sony_word x < 2 ^ sony_nbits (x ! 1)"
    and "0 < sony_nbits (x ! 1)"
    and "sony_nbits (x ! 1) = 12 \<or> sony_nbits (x ! 1) = 15 \<or> sony_nbits (x ! 1) = 20"
    and "units_of 3 (sony_nbits (x ! 1)) (sony_word x) \<le> 60"
proof -
  from assms obtain lo hi where x: "x = [lo, hi]"
    and b: "0 \<le> lo" "lo < 128" "0 \<le> hi" "hi < 8192"
    by (cases x; cases "tl x") (auto simp add: valid_sony_frame_def)
  have w: "sony_word [lo, hi] = lo + hi * 128"
    by (simp add: sony_word_def push_bit_eq_mult)
  have m: "lo mod 128 = lo" "lo div 128 = 0" using b by simp_all
  show "[sony_word x AND 0x7F, drop_bit 7 (sony_word x)] = x"
    unfolding x by (simp add: w and_127 drop_bit_eq_div m)
  show "0 \<le> sony_word x" unfolding x using b by (simp add: w)
  show "sony_word x < 2 ^ sony_nbits (x ! 1)"
    unfolding x using b by (simp add: w sony_nbits_def)
  show "0 < sony_nbits (x ! 1)" by (simp add: sony_nbits_def)
  show "sony_nbits (x ! 1) = 12 \<or> sony_nbits (x ! 1) = 15 \<or> sony_nbits (x ! 1) = 20"
    by (simp add: sony_nbits_def)
  have "units_of 3 (sony_nbits (x ! 1)) (sony_word x) \<le> 3 * int (sony_nbits (x ! 1))"
    by (rule units_of_le) simp
  also have "\<dots> \<le> 60" by (simp add: sony_nbits_def)
  finally show "units_of 3 (sony_nbits (x ! 1)) (sony_word x) \<le> 60" .
qed

lemma sony_decode_rest:
  "\<forall>x\<in>set frs. valid_sony_frame x \<Longrightarrow> (frs \<noteq> [] \<longrightarrow> tc \<le> 64) \<Longrightarrow>
   0 \<le> d \<Longrightarrow> d < 2 ^ n \<Longrightarrow> n = 12 \<or> n = 15 \<or> n = 20 \<Longrightarrow>
   sony_loop SONY 600 (pairs_of 600 (600 * 2) n d @ sony_rest 600 tc frs) 0
     \<lparr>frames = fr, byte_list = [], byte = 0, bit_counter = 0, end_of_frame = False\<rparr>
   = Inr (Some (SONY, fr @ [[d AND 0x7F, drop_bit 7 d]] @ frs))"
proof (induction frs arbitrary: tc fr d n)
  case Nil
  have n: "0 < n" using Nil.prems(5) by auto
  have d: "d mod 2 ^ n = d" using Nil.prems(3,4) by simp
  show ?case
    using Nil.prems(5) sony_bits_final [of 600 n SONY d fr "[]" 0 0 False] n d
    by auto
next
  case (Cons x xs)
  note vx = sony_word_split [of x]
  have valid: "valid_sony_frame x" using Cons.prems(1) by simp
  define n' where "n' = sony_nbits (x ! 1)"
  define d' where "d' = sony_word x"
  define tc' where "tc' = 4 + units_of 3 n' d'"
  define w where "w = round_m (45000 - 600 * tc) 100"
  have d: "d mod 2 ^ n = d" using Cons.prems(3,4) by simp
  have w: "5000 < w" using Cons.prems(2) by (simp add: w_def sony_wait_ok)
  have r: "sony_rest 600 tc (x # xs) = w # 600 * 4 # pairs_of 600 (600 * 2) n' d' @ sony_rest 600 tc' xs"
    by (simp add: w_def n'_def d'_def tc'_def)
  have ne1: "sony_rest 600 tc (x # xs) \<noteq> []" by simp
  have ne2: "pairs_of 600 (600 * 2) n' d' @ sony_rest 600 tc' xs \<noteq> []"
    using vx(4) [OF valid] by (simp add: n'_def pairs_of_nonempty)
  have tc': "xs \<noteq> [] \<longrightarrow> tc' \<le> 64"
    using vx(6) [OF valid] by (simp add: tc'_def n'_def d'_def)
  have "sony_loop SONY 600 (pairs_of 600 (600 * 2) n d @ sony_rest 600 tc (x # xs)) 0
     \<lparr>frames = fr, byte_list = [], byte = 0, bit_counter = 0, end_of_frame = False\<rparr>
     = sony_loop SONY 600 (sony_rest 600 tc (x # xs)) 0
     \<lparr>frames = fr, byte_list = [], byte = 0 + (d mod 2 ^ n) * 2 ^ 0, bit_counter = 0 + n,
       end_of_frame = False\<rparr>"
    by (rule sony_bits_mid [OF _ _ ne1]) simp_all
  also have "\<dots> = sony_loop SONY 600 (pairs_of 600 (600 * 2) n' d' @ sony_rest 600 tc' xs) 0
     \<lparr>frames = fr @ [[] @ [(0 + (d mod 2 ^ n) * 2 ^ 0) AND 0x7F,
                          drop_bit 7 (0 + (d mod 2 ^ n) * 2 ^ 0)]],
       byte_list = [], byte = 0, bit_counter = 0, end_of_frame = False\<rparr>"
    unfolding r by (rule sony_boundary [OF _ w ne2]) simp
  also have "\<dots> = Inr (Some (SONY, (fr @ [[] @ [(0 + (d mod 2 ^ n) * 2 ^ 0) AND 0x7F,
                          drop_bit 7 (0 + (d mod 2 ^ n) * 2 ^ 0)]])
                       @ [[d' AND 0x7F, drop_bit 7 d']] @ xs))"
  proof (rule Cons.IH)
    show "\<forall>x\<in>set xs. valid_sony_frame x" using Cons.prems(1) by simp
    show "xs \<noteq> [] \<longrightarrow> tc' \<le> 64" by (rule tc')
    show "0 \<le> d'" using vx(2) [OF valid] by (simp add: d'_def)
    show "d' < 2 ^ n'" using vx(3) [OF valid] by (simp add: d'_def n'_def)
    show "n' = 12 \<or> n' = 15 \<or> n' = 20" using vx(5) [OF valid] by (simp add: n'_def)
  qed
  finally show ?case
    using vx(1) [OF valid] by (simp add: d d'_def)
qed

lemma decode_encode_sony:
  assumes ne: "frs \<noteq> []" and v: "\<forall>x\<in>set frs. valid_sony_frame x"
  shows "decode_encoded SONY frs = Inr (Some (SONY, frs))"
proof -
  obtain x xs where frs: "frs = x # xs" using ne by (cases frs) auto
  note vx = sony_word_split [of x]
  have valid: "valid_sony_frame x" using v by (simp add: frs)
  define n where "n = sony_nbits (x ! 1)"
  define d where "d = sony_word x"
  define tc where "tc = 4 + units_of 3 n d"
  define rest where "rest = pairs_of 600 (600 * 2) n d @ sony_rest 600 tc xs"
  define code where "code = 2400 # rest"
  have l2: "\<forall>x\<in>set (x # xs). length x = 2"
    using v by (simp add: frs valid_sony_frame_def)
  have e: "encode SONY frs = Inr code"
    unfolding frs by (subst encode_sony [OF l2]) (simp add: code_def rest_def n_def d_def tc_def T_defs)
  have n12: "12 \<le> n" using vx(5) [OF valid] by (auto simp add: n_def)
  then obtain m where m: "n = Suc m" by (cases n) auto
  have "24 \<le> length (pairs_of 600 (600 * 2) n d)" using n12 by (simp add: length_pairs_of)
  then have len: "10 \<le> length code" by (simp add: code_def rest_def)
  then have e2: "(length code < 10) = False" "(length code div 2 = 0) = False"
    by presburger+
  have c0: "code ! 0 = 2400" "code ! Suc 0 = 600"
    by (simp_all add: code_def rest_def m)
  have tc: "xs \<noteq> [] \<longrightarrow> tc \<le> 64"
    using vx(6) [OF valid] by (simp add: tc_def n_def d_def)
  have "sony_loop SONY 600 code 1 init_dstate = sony_loop SONY 600 rest 0 init_dstate"
    using sony_loop_drop1 [of SONY 600 2400 rest init_dstate] by (simp add: code_def)
  also have "\<dots> = Inr (Some (SONY, [] @ [[d AND 0x7F, drop_bit 7 d]] @ xs))"
    unfolding rest_def init_dstate_def
  proof (rule sony_decode_rest)
    show "\<forall>x\<in>set xs. valid_sony_frame x" using v by (simp add: frs)
    show "xs \<noteq> [] \<longrightarrow> tc \<le> 64" by (rule tc)
    show "0 \<le> d" using vx(2) [OF valid] by (simp add: d_def)
    show "d < 2 ^ n" using vx(3) [OF valid] by (simp add: d_def n_def)
    show "n = 12 \<or> n = 15 \<or> n = 20" using vx(5) [OF valid] by (simp add: n_def)
  qed
  finally have loop: "sony_loop SONY 600 code 1 init_dstate = Inr (Some (SONY, frs))"
    using vx(1) [OF valid] by (simp add: d_def frs)
  have "decode code = Inr (Some (SONY, frs))"
    using loop by (simp add: decode_def e2 c0 cl_default_int T_defs)
  then show ?thesis by (simp add: decode_encoded_def e)
qed

lemma units_of_byte: "units_of 4 8 b \<le> 32"
  using units_of_le [of 4 8 b] by simp

lemma frame_units_le: "frame_units frame \<le> 32 * int (length frame)"
proof (induction frame)
  case Nil
  then show ?case by (simp add: frame_units_def)
next
  case (Cons b frame)
  then show ?case using units_of_byte [of b] by (simp add: frame_units_def)
qed

lemma nec_wait_short: "length frame \<le> 4 \<Longrightarrow> 5000 < nec_wait frame"
proof -
  assume "length frame \<le> 4"
  then have "frame_units frame \<le> 128" using frame_units_le [of frame] by simp
  then have "5100 \<le> 108050 - 560 * (24 + frame_units frame)" by simp
  moreover have "5100 \<le> z \<Longrightarrow> 51 \<le> z div 100" for z :: int by presburger
  ultimately have "51 \<le> (108050 - 560 * (24 + frame_units frame)) div 100" by blast
  then show ?thesis by (simp add: nec_wait_eq round_m_def)
qed

text \<open>
  C1 (amended). For a non-empty list of frames, decoding the encoded code gives back the
  format and the frames: for AEHA with every frame a non-empty list of bytes; for NEC with
  such frames when every frame but the last is followed by a wait space above 5000
  microseconds, which holds for every frame of at most 4 bytes; for SONY with every frame
  a pair \<open>[low7, high]\<close> where \<open>0 \<le> low7 < 0x80\<close> and \<open>0 \<le> high < 0x2000\<close>. The witness
  has the scenario of NEC with the frame \<open>[0x12, 0x34]\<close>: the leader pair 8960, 4480, the
  16 pairs of the bits, the stop mark 560, and the frame decoded from that code.
\<close>

theorem decode_encode_roundtrip:
  "frs \<noteq> [] \<longrightarrow>
     ((\<forall>x\<in>set frs. valid_bytes_frame x) \<longrightarrow> decode_encoded AEHA frs = Inr (Some (AEHA, frs)))
   \<and> ((\<forall>x\<in>set frs. valid_bytes_frame x) \<and> (\<forall>x\<in>set (butlast frs). 5000 < nec_wait x)
        \<longrightarrow> decode_encoded NEC frs = Inr (Some (NEC, frs)))
   \<and> ((\<forall>x\<in>set frs. valid_bytes_frame x \<and> length x \<le> 4)
        \<longrightarrow> decode_encoded NEC frs = Inr (Some (NEC, frs)))
   \<and> ((\<forall>x\<in>set frs. valid_sony_frame x) \<longrightarrow> decode_encoded SONY frs = Inr (Some (SONY, frs)))"
proof (intro impI conjI)
  assume ne: "frs \<noteq> []"
  {
    assume "\<forall>x\<in>set frs. valid_bytes_frame x"
    then show "decode_encoded AEHA frs = Inr (Some (AEHA, frs))"
      using ne by (intro decode_encode_an [where t = 425]) simp_all
  next
    assume "(\<forall>x\<in>set frs. valid_bytes_frame x) \<and> (\<forall>x\<in>set (butlast frs). 5000 < nec_wait x)"
    then show "decode_encoded NEC frs = Inr (Some (NEC, frs))"
      using ne by (intro decode_encode_an [where t = 560]) simp_all
  next
    assume a: "\<forall>x\<in>set frs. valid_bytes_frame x \<and> length x \<le> 4"
    then have "\<forall>x\<in>set (butlast frs). 5000 < nec_wait x"
      by (meson in_set_butlastD nec_wait_short)
    then show "decode_encoded NEC frs = Inr (Some (NEC, frs))"
      using ne a by (intro decode_encode_an [where t = 560]) simp_all
  next
    assume "\<forall>x\<in>set frs. valid_sony_frame x"
    then show "decode_encoded SONY frs = Inr (Some (SONY, frs))"
      using ne by (intro decode_encode_sony)
  }
qed


theorem decode_encode_roundtrip_witness:
  "decode_encoded AEHA [[1], [2]] = Inr (Some (AEHA, [[1], [2]]))
   \<and> decode_encoded NEC [[255, 255, 255, 255, 127], [0]]
       = Inr (Some (NEC, [[255, 255, 255, 255, 127], [0]]))
   \<and> decode_encoded NEC [[0x12, 0x34]] = Inr (Some (NEC, [[0x12, 0x34]]))
   \<and> decode_encoded SONY [[1, 2], [127, 8191], [3, 33]]
       = Inr (Some (SONY, [[1, 2], [127, 8191], [3, 33]]))
   \<and> encode NEC [[0x12, 0x34]]
       = Inr [8960, 4480,
              560, 560, 560, 1680, 560, 560, 560, 560, 560, 1680, 560, 560, 560, 560, 560, 560,
              560, 560, 560, 560, 560, 1680, 560, 560, 560, 1680, 560, 1680, 560, 560, 560, 560,
              560]
   \<and> decode [8960, 4480,
              560, 560, 560, 1680, 560, 560, 560, 560, 560, 1680, 560, 560, 560, 560, 560, 560,
              560, 560, 560, 560, 560, 1680, 560, 560, 560, 1680, 560, 1680, 560, 560, 560, 560,
              560] = Inr (Some (NEC, [[0x12, 0x34]]))"
proof -
  have w: "5000 < nec_wait [255, 255, 255, 255, 127]" by code_simp
  have e: "encode NEC [[0x12, 0x34]]
       = Inr [8960, 4480,
              560, 560, 560, 1680, 560, 560, 560, 560, 560, 1680, 560, 560, 560, 560, 560, 560,
              560, 560, 560, 560, 560, 1680, 560, 560, 560, 1680, 560, 1680, 560, 560, 560, 560,
              560]"
    by code_simp
  have 1: "decode_encoded AEHA [[1], [2]] = Inr (Some (AEHA, [[1], [2]]))"
    using decode_encode_roundtrip [of "[[1], [2]]"] by (simp add: valid_bytes_frame_def)
  have 2: "decode_encoded NEC [[255, 255, 255, 255, 127], [0]]
       = Inr (Some (NEC, [[255, 255, 255, 255, 127], [0]]))"
    using decode_encode_roundtrip [of "[[255, 255, 255, 255, 127], [0]]"] w
    by (simp add: valid_bytes_frame_def)
  have 3: "decode_encoded NEC [[0x12, 0x34]] = Inr (Some (NEC, [[0x12, 0x34]]))"
    using decode_encode_roundtrip [of "[[0x12, 0x34]]"] by (simp add: valid_bytes_frame_def)
  have 4: "decode_encoded SONY [[1, 2], [127, 8191], [3, 33]]
       = Inr (Some (SONY, [[1, 2], [127, 8191], [3, 33]]))"
    using decode_encode_roundtrip [of "[[1, 2], [127, 8191], [3, 33]]"]
    by (simp add: valid_sony_frame_def)
  have 5: "decode [8960, 4480,
              560, 560, 560, 1680, 560, 560, 560, 560, 560, 1680, 560, 560, 560, 560, 560, 560,
              560, 560, 560, 560, 560, 1680, 560, 560, 560, 1680, 560, 1680, 560, 560, 560, 560,
              560] = Inr (Some (NEC, [[0x12, 0x34]]))"
    using 3 by (simp add: decode_encoded_def e)
  show ?thesis by (intro conjI 1 2 3 4 e 5)
qed


text \<open>
  As stated for every valid list of frames, C1 fails on a long NEC frame that is not the
  last, whose wait space comes out at 5000 and is not read as a frame boundary, and on a
  SONY frame whose second element needs more than 13 bits.
\<close>

theorem decode_encode_roundtrip_counterexample:
  "decode_encoded NEC [[255, 255, 255, 255, 255], [0]] = Inr (Some (Unknown, []))
   \<and> decode_encoded SONY [[0, 8192]] = Inr (Some (SONY, [[0, 0]]))"
  by code_simp

section \<open>Codes of odd length\<close>

text \<open>
  On a code of odd length, as \<open>encode\<close> builds them, every path of both loops ends in a
  \<^verbatim>\<open>return\<close>: \<open>decode\<close> raises nothing and returns \<open>(Unknown, [])\<close> or one of the three
  formats with its frames. The results \<^verbatim>\<open>None\<close> and \<^verbatim>\<open>IndexError\<close> belong to the even
  lengths only.
\<close>

lemma an_body_no_raise: "an_body f t code i st \<noteq> Raise e"
  by (simp add: an_body_def)

lemma an_body_last:
  "int i = int (length code) - 1 \<Longrightarrow> \<exists>r. an_body f t code i st = Return r"
  by (simp add: an_body_def)

lemma an_loop_odd_returns:
  "i < length code \<Longrightarrow> odd (length code - i) \<Longrightarrow> \<exists>r. an_loop f t code i st = Inr (Some r)"
proof (induction f t code i st rule: an_loop.induct)
  case (1 f t code i st)
  show ?case
  proof (cases "an_body f t code i st")
    case (Continue st')
    have "int i \<noteq> int (length code) - 1"
      using an_body_last [of i code f t st] Continue by auto
    then have i2: "i + 2 < length code" "odd (length code - (i + 2))"
      using "1.prems" by presburger+
    show ?thesis
      using "1.IH" [OF "1.prems"(1) Continue i2] "1.prems"(1) Continue
      by (subst an_loop.simps) simp
  next
    case (Return r)
    then show ?thesis using "1.prems"(1) by (subst an_loop.simps) simp
  next
    case (Raise e)
    then show ?thesis using an_body_no_raise by blast
  qed
qed

lemma sony_body_inner:
  "i + 1 < length code \<Longrightarrow> sony_body f t code i st \<noteq> Raise e"
  by (simp add: sony_body_def sony_last_def)

lemma sony_body_final_returns:
  "int i = int (length code) - 2 \<Longrightarrow> \<exists>r. sony_body f t code i st = Return r"
  by (simp add: sony_body_def sony_last_def)

lemma sony_loop_odd_returns:
  "i < length code \<Longrightarrow> even (length code - i) \<Longrightarrow> \<exists>r. sony_loop f t code i st = Inr (Some r)"
proof (induction f t code i st rule: sony_loop.induct)
  case (1 f t code i st)
  have i1: "i + 1 < length code" using "1.prems" by presburger
  show ?case
  proof (cases "sony_body f t code i st")
    case (Continue st')
    have "int i \<noteq> int (length code) - 2"
      using sony_body_final_returns [of i code f t st] Continue by auto
    then have i2: "i + 2 < length code" "even (length code - (i + 2))"
      using "1.prems" by presburger+
    show ?thesis
      using "1.IH" [OF "1.prems"(1) Continue i2] "1.prems"(1) Continue
      by (subst sony_loop.simps) simp
  next
    case (Return r)
    then show ?thesis using "1.prems"(1) by (subst sony_loop.simps) simp
  next
    case (Raise e)
    then show ?thesis using sony_body_inner [OF i1] by blast
  qed
qed

lemma an_body_shape:
  "an_body f t code i st = Return (g, fs) \<Longrightarrow> g = f \<or> (g = Unknown \<and> fs = [])"
  by (auto simp add: an_body_def split: if_splits)

lemma an_loop_shape:
  "an_loop f t code i st = Inr (Some (g, fs)) \<Longrightarrow> g = f \<or> (g = Unknown \<and> fs = [])"
proof (induction f t code i st rule: an_loop.induct)
  case (1 f t code i st)
  from "1.prems" show ?case
    by (subst (asm) an_loop.simps)
       (auto split: if_splits outcome.splits dest: an_body_shape "1.IH")
qed

lemma sony_body_shape:
  "sony_body f t code i st = Return (g, fs) \<Longrightarrow> g = f \<or> (g = Unknown \<and> fs = [])"
  by (auto simp add: sony_body_def sony_last_def split: if_splits)

lemma sony_loop_shape:
  "sony_loop f t code i st = Inr (Some (g, fs)) \<Longrightarrow> g = f \<or> (g = Unknown \<and> fs = [])"
proof (induction f t code i st rule: sony_loop.induct)
  case (1 f t code i st)
  from "1.prems" show ?case
    by (subst (asm) sony_loop.simps)
       (auto split: if_splits outcome.splits dest: sony_body_shape "1.IH")
qed

lemma decode_odd_length:
  assumes "odd (length code)"
  shows "decode code = Inr (Some (Unknown, []))
         \<or> (\<exists>f fs. (f = AEHA \<or> f = NEC \<or> f = SONY) \<and> decode code = Inr (Some (f, fs)))"
proof (cases "length code < 10")
  case True
  then show ?thesis by (simp add: decode_def)
next
  case False
  then have l: "2 < length code" "1 < length code" by simp_all
  have o: "odd (length code - 2)" "even (length code - 1)" using assms l by presburger+
  have a: "\<exists>g fs. an_loop f t code 2 init_dstate = Inr (Some (g, fs))
             \<and> (g = f \<or> (g = Unknown \<and> fs = []))" for f t
    using an_loop_odd_returns [OF l(1) o(1), of f t init_dstate] an_loop_shape [of f t code 2]
    by (metis surj_pair)
  have b: "\<exists>g fs. sony_loop f t code 1 init_dstate = Inr (Some (g, fs))
             \<and> (g = f \<or> (g = Unknown \<and> fs = []))" for f t
    using sony_loop_odd_returns [OF l(2) o(2), of f t init_dstate] sony_loop_shape [of f t code 1]
    by (metis surj_pair)
  show ?thesis
    using a [of AEHA T_AEHA] a [of NEC T_NEC] b [of SONY T_SONY]
    by (auto simp add: decode_def)
qed

end
